theory Spec2Isabelle
  imports Main "HOL-Library.Word" "HOL-Library.Signed_Division"
begin

section \<open>The user file-system API of BFS (fs.c)\<close>

text \<open>
  The development embeds the functions of \<^verbatim>\<open>fs.c\<close>: \<^verbatim>\<open>fsClose\<close>, \<^verbatim>\<open>fsFormat\<close>,
  \<^verbatim>\<open>fsRead\<close>, \<^verbatim>\<open>fsSeek\<close>, \<^verbatim>\<open>fsTell\<close>, \<^verbatim>\<open>fsSize\<close> and \<^verbatim>\<open>fsWrite\<close>.
  A value of the C type \<^verbatim>\<open>i32\<close> is an integer between \<open>-2^31\<close> and \<open>2^31 - 1\<close>. The
  cursor and the size, which the code keeps in memory between calls, are 32-bit words read
  as signed; local variables are integers, and every sum, difference and product that can
  leave the range goes through \<open>i32\<close>, the two's-complement wrap-around of the compiled
  code. The C operators \<^verbatim>\<open>/\<close> and \<^verbatim>\<open>%\<close> truncate towards zero and are \<open>sdiv\<close> and
  \<open>smod\<close>; a quotient or remainder by \<^verbatim>\<open>BYTESPERBLOCK\<close> never leaves the range.
  A call of \<^verbatim>\<open>FATAL\<close> ends the process: it is the \<open>Inl\<close> branch of a result.
\<close>

subsection \<open>Data\<close>

type_synonym byte = "8 word"
type_synonym block = "byte list"

text \<open>The value an \<^verbatim>\<open>i32\<close> holds after an operation whose exact result is \<open>x\<close>.\<close>

definition i32 :: "int \<Rightarrow> int" where
  "i32 x = (x + 2147483648) mod 4294967296 - 2147483648"

abbreviation (input) INT32_MAX :: int where
  "INT32_MAX \<equiv> 2147483647"

text \<open>Modelled from the spec: the constant \<^verbatim>\<open>BYTESPERBLOCK\<close> of \<^verbatim>\<open>bfs.h\<close>, which is
  not among the sources; the spec gives one block as 512 bytes.\<close>

abbreviation (input) BYTESPERBLOCK :: int where
  "BYTESPERBLOCK \<equiv> 512"

text \<open>The values of \<^verbatim>\<open>SEEK_SET\<close>, \<^verbatim>\<open>SEEK_CUR\<close> and \<^verbatim>\<open>SEEK_END\<close> in \<^verbatim>\<open>stdio.h\<close>.\<close>

abbreviation (input) SEEK_SET :: int where
  "SEEK_SET \<equiv> 0"

abbreviation (input) SEEK_CUR :: int where
  "SEEK_CUR \<equiv> 1"

abbreviation (input) SEEK_END :: int where
  "SEEK_END \<equiv> 2"

text \<open>The ways a call can end the process. \<open>EBADCURS\<close> and \<open>EBADWHENCE\<close> are the codes
  \<^verbatim>\<open>fsSeek\<close> passes to \<^verbatim>\<open>FATAL\<close>. \<open>ENOSPACE\<close> and \<open>EBADFBN\<close> are the spec's
  \<^verbatim>\<open>NoSpace\<close> and \<^verbatim>\<open>BadBlockIndex\<close>; \<open>ENOOFTE\<close> is a lookup of an inode that has
  no open-file-table entry; \<open>EFAULT\<close> is a \<^verbatim>\<open>memcpy\<close> outside its arrays.\<close>

datatype error = EBADCURS | EBADWHENCE | ENOSPACE | EBADFBN | ENOOFTE | EFAULT

text \<open>Modelled from the spec: an entry of the open file table \<^verbatim>\<open>g_oft\<close> (declared in
  \<^verbatim>\<open>bfs.h\<close>): inode number, byte cursor and reference count. The entry exists while its
  reference count is at least 1.\<close>

record oft_entry =
  oft_inum :: int
  curs :: "32 word"
  refs :: int

text \<open>Modelled from the spec: an inode holds the logical size of the file in bytes and the
  ordered list of the physical blocks it owns.\<close>

record inode =
  isize :: "32 word"
  blocks :: "nat list"

text \<open>The calls into the block layer and the copies a call of the API makes, in order.\<close>

datatype event = Resolve int int | BioRead nat | BioWrite nat | Memcpy int

text \<open>The state of a mounted disk: the blocks of the image, the free list (one flag per
  physical block, \<open>True\<close> for a block in use), the inode table, the open file table, the
  map from descriptors to inode numbers, and the trace of events so far.\<close>

record bfs =
  disk :: "nat \<Rightarrow> block"
  freelist :: "bool list"
  inodes :: "int \<Rightarrow> inode"
  g_oft :: "oft_entry list"
  fdtab :: "int \<Rightarrow> int"
  trace :: "event list"

subsection \<open>The layer below fs.c (bfs.c and bio.c)\<close>

fun find_slot :: "('a \<Rightarrow> bool) \<Rightarrow> 'a list \<Rightarrow> nat option" where
  "find_slot P [] = None"
| "find_slot P (x # xs) = (if P x then Some 0 else map_option Suc (find_slot P xs))"

text \<open>Modelled from the spec: \<^verbatim>\<open>bfsFdToInum\<close> of \<^verbatim>\<open>bfs.c\<close>. A descriptor is a
  deterministic transform of the open-file-table entry; several descriptors may resolve
  to one inode. No descriptor is rejected.\<close>

definition bfsFdToInum :: "bfs \<Rightarrow> int \<Rightarrow> int" where
  "bfsFdToInum s fd = fdtab s fd"

text \<open>Modelled from the spec: \<^verbatim>\<open>bfsFindOFTE\<close> of \<^verbatim>\<open>bfs.c\<close> finds the entry of the
  open file table by inode number; there is one entry per open inode.\<close>

definition bfsFindOFTE :: "bfs \<Rightarrow> int \<Rightarrow> nat option" where
  "bfsFindOFTE s inum = find_slot (\<lambda>e. oft_inum e = inum \<and> 1 \<le> refs e) (g_oft s)"

text \<open>The assignment \<^verbatim>\<open>g_oft[ofte].curs = c\<close>: the field keeps the 32 bits of \<open>c\<close>.\<close>

definition set_curs :: "bfs \<Rightarrow> nat \<Rightarrow> int \<Rightarrow> bfs" where
  "set_curs s ofte c =
     s\<lparr>g_oft := (g_oft s)[ofte := (g_oft s ! ofte)\<lparr>curs := word_of_int c\<rparr>]\<rparr>"

text \<open>Modelled from the spec: \<^verbatim>\<open>bfsTell\<close> of \<^verbatim>\<open>bfs.c\<close> reads the cursor through the
  entry keyed by the inode number of the descriptor.\<close>

definition bfsTell :: "bfs \<Rightarrow> int \<Rightarrow> error + int" where
  "bfsTell s fd =
     (case bfsFindOFTE s (bfsFdToInum s fd) of
        None \<Rightarrow> Inl ENOOFTE
      | Some ofte \<Rightarrow> Inr (sint (curs (g_oft s ! ofte))))"

text \<open>Modelled from the spec: \<^verbatim>\<open>bfsSetCursor\<close> of \<^verbatim>\<open>bfs.c\<close> mutates the cursor
  through the entry keyed by the inode number.\<close>

definition bfsSetCursor :: "bfs \<Rightarrow> int \<Rightarrow> int \<Rightarrow> error + bfs" where
  "bfsSetCursor s inum newCurs =
     (case bfsFindOFTE s inum of
        None \<Rightarrow> Inl ENOOFTE
      | Some ofte \<Rightarrow> Inr (set_curs s ofte newCurs))"


text \<open>Modelled from the spec: \<^verbatim>\<open>bfsGetSize\<close> of \<^verbatim>\<open>bfs.c\<close> returns the logical size
  recorded in the inode.\<close>

definition bfsGetSize :: "bfs \<Rightarrow> int \<Rightarrow> int" where
  "bfsGetSize s inum = sint (isize (inodes s inum))"

text \<open>Modelled from the spec: the allocator of \<^verbatim>\<open>bfs.c\<close> takes the first free block in
  increasing physical order and marks it used; \<^verbatim>\<open>NoSpace\<close> when there is none.\<close>

definition bfsAllocBlock :: "bfs \<Rightarrow> error + (bfs \<times> nat)" where
  "bfsAllocBlock s =
     (case find_slot (\<lambda>u. \<not> u) (freelist s) of
        None \<Rightarrow> Inl ENOSPACE
      | Some d \<Rightarrow> Inr (s\<lparr>freelist := (freelist s)[d := True]\<rparr>, d))"

text \<open>Modelled from the spec: \<^verbatim>\<open>bfsFbnToDbn\<close> of \<^verbatim>\<open>bfs.c\<close> (the spec's
  \<^verbatim>\<open>resolveBlock\<close>). An index within the owned blocks returns the block; the index one
  past the end allocates a block, appends it and returns it; any other index is
  \<^verbatim>\<open>BadBlockIndex\<close>.\<close>

definition bfsFbnToDbn :: "bfs \<Rightarrow> int \<Rightarrow> int \<Rightarrow> error + (bfs \<times> nat)" where
  "bfsFbnToDbn s inum fbn =
     (let ino = inodes s inum;
          s0 = s\<lparr>trace := trace s @ [Resolve inum fbn]\<rparr>
      in if 0 \<le> fbn \<and> nat fbn < length (blocks ino) then Inr (s0, blocks ino ! nat fbn)
         else if fbn = int (length (blocks ino)) then
           (case bfsAllocBlock s0 of
              Inl e \<Rightarrow> Inl e
            | Inr (s1, d) \<Rightarrow>
                Inr (s1\<lparr>inodes := (inodes s1)(inum := ino\<lparr>blocks := blocks ino @ [d]\<rparr>)\<rparr>, d))
         else Inl EBADFBN)"

text \<open>Modelled from the spec: \<^verbatim>\<open>bioRead\<close> and \<^verbatim>\<open>bioWrite\<close> of \<^verbatim>\<open>bio.c\<close> read and
  write one block of the image by physical block number.\<close>

definition bioRead :: "bfs \<Rightarrow> nat \<Rightarrow> bfs \<times> block" where
  "bioRead s dbn = (s\<lparr>trace := trace s @ [BioRead dbn]\<rparr>, disk s dbn)"

definition bioWrite :: "bfs \<Rightarrow> nat \<Rightarrow> block \<Rightarrow> bfs" where
  "bioWrite s dbn bio = s\<lparr>disk := (disk s)(dbn := bio), trace := trace s @ [BioWrite dbn]\<rparr>"

text \<open>\<^verbatim>\<open>memcpy(dst + doff, src + soff, n)\<close> on arrays: the new contents of \<open>dst\<close>, or a
  fault when the count is negative or a range leaves its array.\<close>

definition memcpy :: "bfs \<Rightarrow> byte list \<Rightarrow> int \<Rightarrow> byte list \<Rightarrow> int \<Rightarrow> int \<Rightarrow> error + (bfs \<times> byte list)" where
  "memcpy s dst doff src soff n =
     (if 0 \<le> n \<and> 0 \<le> doff \<and> doff + n \<le> int (length dst)
         \<and> 0 \<le> soff \<and> soff + n \<le> int (length src)
      then Inr (s\<lparr>trace := trace s @ [Memcpy n]\<rparr>,
                take (nat doff) dst @ take (nat n) (drop (nat soff) src) @ drop (nat (doff + n)) dst)
      else Inl EFAULT)"

text \<open>\<^verbatim>\<open>memcpy(buf + readBytes, bio + offset, n)\<close> into the caller's buffer, whose bytes
  \<open>buf[0..readBytes)\<close> are \<open>out\<close>: the copy appends to them.\<close>

definition memcpy_out :: "bfs \<Rightarrow> byte list \<Rightarrow> byte list \<Rightarrow> int \<Rightarrow> int \<Rightarrow> error + (bfs \<times> byte list)" where
  "memcpy_out s out src soff n =
     (if 0 \<le> n \<and> 0 \<le> soff \<and> soff + n \<le> int (length src)
      then Inr (s\<lparr>trace := trace s @ [Memcpy n]\<rparr>, out @ take (nat n) (drop (nat soff) src))
      else Inl EFAULT)"

subsection \<open>fs.c\<close>


definition fsTell :: "bfs \<Rightarrow> int \<Rightarrow> error + int" where
  "fsTell s fd = bfsTell s fd"

definition fsSize :: "bfs \<Rightarrow> int \<Rightarrow> int" where
  "fsSize s fd = (let inum = bfsFdToInum s fd in bfsGetSize s inum)"

definition fsSeek :: "bfs \<Rightarrow> int \<Rightarrow> int \<Rightarrow> int \<Rightarrow> error + (bfs \<times> int)" where
  "fsSeek s fd offset whence =
     (if offset < 0 then Inl EBADCURS
      else
        let inum = bfsFdToInum s fd in
        case bfsFindOFTE s inum of
          None \<Rightarrow> Inl ENOOFTE
        | Some ofte \<Rightarrow>
            if whence = SEEK_SET then Inr (set_curs s ofte offset, 0)
            else if whence = SEEK_CUR then
              Inr (set_curs s ofte (i32 (sint (curs (g_oft s ! ofte)) + offset)), 0)
            else if whence = SEEK_END then
              (let end = fsSize s fd in Inr (set_curs s ofte (i32 (end + offset)), 0))
            else Inl EBADWHENCE)"

text \<open>The loop of \<^verbatim>\<open>fsRead\<close>. The variables that change are the block index \<open>fbn\<close>, the
  local \<open>cursor\<close>, \<open>readBytes\<close>, the bytes stored in the buffer so far, and the state. The
  index runs up to \<open>fbnEnd\<close>, a quotient by \<^verbatim>\<open>BYTESPERBLOCK\<close>, so \<open>fbn + 1\<close> stays in range;
  so do the differences of two remainders and of \<^verbatim>\<open>BYTESPERBLOCK\<close> and a remainder.\<close>

function read_loop ::
  "int \<Rightarrow> int \<Rightarrow> int \<Rightarrow> int \<Rightarrow> int \<Rightarrow> int \<Rightarrow> int \<Rightarrow> byte list \<Rightarrow> bfs
    \<Rightarrow> error + (bfs \<times> int \<times> byte list)" where
  "read_loop inum numb fbnStart fbnEnd fbn cursor readBytes out s =
     (if fbn \<le> fbnEnd then
        (case bfsFbnToDbn s inum fbn of
           Inl e \<Rightarrow> Inl e
         | Inr (s1, dbn) \<Rightarrow>
             (case bioRead s1 dbn of
                (s2, bio) \<Rightarrow>
                  (let offset = (if fbn = fbnStart then cursor smod BYTESPERBLOCK else 0);
                       bytesToRead =
                         (if fbn = fbnEnd then i32 (cursor + numb) smod BYTESPERBLOCK - offset
                          else BYTESPERBLOCK - offset)
                   in case memcpy_out s2 out bio offset bytesToRead of
                        Inl e \<Rightarrow> Inl e
                      | Inr (s3, out') \<Rightarrow>
                          (case bfsSetCursor s3 inum (i32 (cursor + bytesToRead)) of
                             Inl e \<Rightarrow> Inl e
                           | Inr s4 \<Rightarrow>
                               read_loop inum numb fbnStart fbnEnd (fbn + 1)
                                 (i32 (cursor + bytesToRead)) (i32 (readBytes + bytesToRead))
                                 out' s4))))
      else Inr (s, readBytes, out))"
  by pat_completeness auto
termination
  by (relation "measure (\<lambda>(inum, numb, fbnStart, fbnEnd, fbn, cursor, readBytes, out, s).
        nat (fbnEnd + 1 - fbn))") auto

definition fsRead :: "bfs \<Rightarrow> int \<Rightarrow> int \<Rightarrow> error + (bfs \<times> int \<times> byte list)" where
  "fsRead s fd numb =
     (let inum = bfsFdToInum s fd in
      case bfsTell s fd of
        Inl e \<Rightarrow> Inl e
      | Inr cursor \<Rightarrow>
          (let fbnStart = cursor sdiv BYTESPERBLOCK;
               fbnEnd = i32 (cursor + numb) sdiv BYTESPERBLOCK;
               readBytes = 0
           in read_loop inum numb fbnStart fbnEnd fbnStart cursor readBytes [] s))"

text \<open>The loop of \<^verbatim>\<open>fsWrite\<close>. The variables that change are the block index \<open>i\<close>,
  \<open>bytesToWrite\<close>, \<open>bioOffset\<close>, \<open>bufOffset\<close> and the state. The index runs up to
  \<open>fbnEnd\<close>, a quotient by \<^verbatim>\<open>BYTESPERBLOCK\<close>, so \<open>i + 1\<close> stays in range.\<close>

function write_loop ::
  "int \<Rightarrow> byte list \<Rightarrow> int \<Rightarrow> int \<Rightarrow> int \<Rightarrow> int \<Rightarrow> int \<Rightarrow> bfs \<Rightarrow> error + bfs" where
  "write_loop inum buf fbnEnd i bytesToWrite bioOffset bufOffset s =
     (if i \<le> fbnEnd then
        if bytesToWrite = 0 then Inr s
        else
          (case bfsFbnToDbn s inum i of
             Inl e \<Rightarrow> Inl e
           | Inr (s1, dbnNum) \<Rightarrow>
               if bioOffset > 0 then
                 (case bioRead s1 dbnNum of
                    (s2, bio) \<Rightarrow>
                      (let writing = (if bioOffset \<ge> bytesToWrite then bytesToWrite else bioOffset)
                       in case memcpy s2 bio (i32 (BYTESPERBLOCK - bioOffset)) buf bufOffset
                                 writing of
                            Inl e \<Rightarrow> Inl e
                          | Inr (s3, bio') \<Rightarrow>
                              write_loop inum buf fbnEnd (i + 1) (i32 (bytesToWrite - writing)) 0
                                (i32 (bufOffset + writing)) (bioWrite s3 dbnNum bio')))
               else
                 (let writing = (if BYTESPERBLOCK \<ge> bytesToWrite then bytesToWrite else BYTESPERBLOCK)
                  in case bioRead s1 dbnNum of
                       (s2, bio) \<Rightarrow>
                         (case memcpy s2 bio 0 buf bufOffset writing of
                            Inl e \<Rightarrow> Inl e
                          | Inr (s3, bio') \<Rightarrow>
                              write_loop inum buf fbnEnd (i + 1) (i32 (bytesToWrite - writing))
                                bioOffset (i32 (bufOffset + writing)) (bioWrite s3 dbnNum bio'))))
      else Inr s)"
  by pat_completeness auto
termination
  by (relation "measure (\<lambda>(inum, buf, fbnEnd, i, bytesToWrite, bioOffset, bufOffset, s).
        nat (fbnEnd + 1 - i))") auto

definition fsWrite :: "bfs \<Rightarrow> int \<Rightarrow> int \<Rightarrow> byte list \<Rightarrow> error + (bfs \<times> int)" where
  "fsWrite s fd numb buf =
     (let inum = bfsFdToInum s fd in
      case bfsTell s fd of
        Inl e \<Rightarrow> Inl e
      | Inr cursor \<Rightarrow>
          (let fbnStart = cursor sdiv BYTESPERBLOCK;
               fbnEnd = i32 (cursor + numb) sdiv BYTESPERBLOCK;
               bytesToWrite = numb;
               bioOffset = i32 (i32 ((fbnStart + 1) * BYTESPERBLOCK) - cursor);
               bufOffset = 0
           in case write_loop inum buf fbnEnd fbnStart bytesToWrite bioOffset bufOffset s of
                Inl e \<Rightarrow> Inl e
              | Inr s1 \<Rightarrow>
                  (case bfsSetCursor s1 inum (i32 (cursor + numb)) of
                     Inl e \<Rightarrow> Inl e
                   | Inr s2 \<Rightarrow> Inr (s2, 0))))"

text \<open>\<^verbatim>\<open>fsFormat\<close>. The initializers \<^verbatim>\<open>bfsInitSuper\<close>, \<^verbatim>\<open>bfsInitInodes\<close>,
  \<^verbatim>\<open>bfsInitDir\<close> and \<^verbatim>\<open>bfsInitFreeList\<close> are in \<^verbatim>\<open>bfs.c\<close>; the model takes what
  \<^verbatim>\<open>fopen\<close> and each initializer return as its environment, and gives back the calls
  made, in order, with the way the call ends.\<close>

record fmt_env =
  fopen_ok :: bool
  bfsInitSuper :: int
  bfsInitInodes :: int
  bfsInitDir :: int
  bfsInitFreeList :: int

datatype fmt_step = Fopen | InitSuper | InitInodes | InitDir | InitFreeList | Fclose

datatype outcome = Return int | Fatal_EDISKCREATE | Fatal int

definition fsFormat :: "fmt_env \<Rightarrow> fmt_step list \<times> outcome" where
  "fsFormat env =
     (if \<not> fopen_ok env then ([Fopen], Fatal_EDISKCREATE)
      else
        let ret = bfsInitSuper env in
        if ret \<noteq> 0 then ([Fopen, InitSuper, Fclose], Fatal ret)
        else
          let ret = bfsInitInodes env in
          if ret \<noteq> 0 then ([Fopen, InitSuper, InitInodes, Fclose], Fatal ret)
          else
            let ret = bfsInitDir env in
            if ret \<noteq> 0 then ([Fopen, InitSuper, InitInodes, InitDir, Fclose], Fatal ret)
            else
              let ret = bfsInitFreeList env in
              if ret \<noteq> 0 then
                ([Fopen, InitSuper, InitInodes, InitDir, InitFreeList, Fclose], Fatal ret)
              else ([Fopen, InitSuper, InitInodes, InitDir, InitFreeList, Fclose], Return 0))"

fun is_init :: "fmt_step \<Rightarrow> bool" where
  "is_init InitSuper = True"
| "is_init InitInodes = True"
| "is_init InitDir = True"
| "is_init InitFreeList = True"
| "is_init _ = False"

subsection \<open>Notions used by the statements\<close>

text \<open>A descriptor is open when its inode has an entry in the open file table.\<close>

definition is_open :: "bfs \<Rightarrow> int \<Rightarrow> bool" where
  "is_open s fd = (bfsFindOFTE s (bfsFdToInum s fd) \<noteq> None)"

text \<open>The byte at position \<open>p\<close> of the file of an inode, through its block list.\<close>

definition file_byte :: "bfs \<Rightarrow> int \<Rightarrow> nat \<Rightarrow> byte" where
  "file_byte s inum p = disk s (blocks (inodes s inum) ! (p div 512)) ! (p mod 512)"

text \<open>The part of the spec's invariants that a write relies on: the blocks an inode owns
  are distinct and marked used in the free list, and every block of the image has
  \<^verbatim>\<open>BYTESPERBLOCK\<close> bytes.\<close>

definition inode_ok :: "bfs \<Rightarrow> int \<Rightarrow> bool" where
  "inode_ok s inum =
     (distinct (blocks (inodes s inum))
      \<and> (\<forall>d \<in> set (blocks (inodes s inum)). d < length (freelist s) \<and> freelist s ! d)
      \<and> (\<forall>d \<in> set [0..<length (freelist s)]. length (disk s d) = 512))"

text \<open>What a caller sees of a read: the count returned and the bytes stored in the buffer.\<close>

definition read_result :: "bfs \<Rightarrow> int \<Rightarrow> int \<Rightarrow> error + (int \<times> byte list)" where
  "read_result s fd numb =
     (case fsRead s fd numb of Inl e \<Rightarrow> Inl e | Inr (s', n, out) \<Rightarrow> Inr (n, out))"

text \<open>The events of one read.\<close>

definition read_trace :: "bfs \<Rightarrow> int \<Rightarrow> int \<Rightarrow> error + event list" where
  "read_trace s fd numb =
     (case fsRead s fd numb of Inl e \<Rightarrow> Inl e | Inr (s', n, out) \<Rightarrow> Inr (trace s'))"

text \<open>The scenario of the round trip: seek to \<open>off\<close>, write \<open>B\<close>, seek back to \<open>off\<close>, read
  \<open>length B\<close> bytes.\<close>

definition write_then_read :: "bfs \<Rightarrow> int \<Rightarrow> int \<Rightarrow> byte list \<Rightarrow> error + (int \<times> byte list)" where
  "write_then_read s fd off B =
     (case fsSeek s fd off SEEK_SET of
        Inl e \<Rightarrow> Inl e
      | Inr (s1, r1) \<Rightarrow>
          (case fsWrite s1 fd (int (length B)) B of
             Inl e \<Rightarrow> Inl e
           | Inr (s2, r2) \<Rightarrow>
               (case fsSeek s2 fd off SEEK_SET of
                  Inl e \<Rightarrow> Inl e
                | Inr (s3, r3) \<Rightarrow> read_result s3 fd (int (length B)))))"

text \<open>The size \<^verbatim>\<open>fsSize\<close> returns after a write.\<close>

definition size_after_write :: "bfs \<Rightarrow> int \<Rightarrow> int \<Rightarrow> byte list \<Rightarrow> error + int" where
  "size_after_write s fd numb buf =
     (case fsWrite s fd numb buf of Inl e \<Rightarrow> Inl e | Inr (s', r) \<Rightarrow> Inr (fsSize s' fd))"

text \<open>The cursor after a seek.\<close>

definition tell_after_seek :: "bfs \<Rightarrow> int \<Rightarrow> int \<Rightarrow> int \<Rightarrow> error + int" where
  "tell_after_seek s fd offset whence =
     (case fsSeek s fd offset whence of Inl e \<Rightarrow> Inl e | Inr (s', r) \<Rightarrow> fsTell s' fd)"

text \<open>One pass through the body of the loop of \<^verbatim>\<open>fsWrite\<close>: resolve file block \<open>i\<close>, read
  it, copy \<open>w\<close> bytes from \<open>buf + bo\<close> to offset \<open>off\<close> of the block, write it back.\<close>

definition put_block :: "bfs \<Rightarrow> int \<Rightarrow> int \<Rightarrow> int \<Rightarrow> byte list \<Rightarrow> int \<Rightarrow> int \<Rightarrow> error + bfs" where
  "put_block s inum i off buf bo w =
     (case bfsFbnToDbn s inum i of
        Inl e \<Rightarrow> Inl e
      | Inr (s1, dbnNum) \<Rightarrow>
          (case bioRead s1 dbnNum of
             (s2, bio) \<Rightarrow>
               (case memcpy s2 bio off buf bo w of
                  Inl e \<Rightarrow> Inl e
                | Inr (s3, bio') \<Rightarrow> Inr (bioWrite s3 dbnNum bio'))))"

text \<open>One pass through the body of the loop of \<^verbatim>\<open>fsRead\<close>: resolve file block \<open>fbn\<close>,
  read it, copy \<open>n\<close> bytes from offset \<open>offset\<close> of the block to the buffer, set the cursor.\<close>

definition get_block ::
  "bfs \<Rightarrow> int \<Rightarrow> int \<Rightarrow> int \<Rightarrow> int \<Rightarrow> byte list \<Rightarrow> int \<Rightarrow> error + (bfs \<times> byte list)" where
  "get_block s inum fbn offset n out cursor =
     (case bfsFbnToDbn s inum fbn of
        Inl e \<Rightarrow> Inl e
      | Inr (s1, dbn) \<Rightarrow>
          (case bioRead s1 dbn of
             (s2, bio) \<Rightarrow>
               (case memcpy_out s2 out bio offset n of
                  Inl e \<Rightarrow> Inl e
                | Inr (s3, out') \<Rightarrow>
                    (case bfsSetCursor s3 inum (i32 (cursor + n)) of
                       Inl e \<Rightarrow> Inl e
                     | Inr s4 \<Rightarrow> Inr (s4, out')))))"


text \<open>What a caller can observe after a write from cursor \<open>c\<close>: the value returned, the
  cursor, the size \<^verbatim>\<open>fsSize\<close> returns, the number of blocks the inode owns, and the
  bytes of the file at the positions \<open>c, ..., c + numb - 1\<close>.\<close>

definition write_report ::
  "bfs \<Rightarrow> int \<Rightarrow> int \<Rightarrow> byte list \<Rightarrow> error + (int \<times> (error + int) \<times> int \<times> nat \<times> byte list)" where
  "write_report s fd numb buf =
     (case fsTell s fd of
        Inl e \<Rightarrow> Inl e
      | Inr c \<Rightarrow>
          (case fsWrite s fd numb buf of
             Inl e \<Rightarrow> Inl e
           | Inr (s', r) \<Rightarrow>
               Inr (r, fsTell s' fd, fsSize s' fd,
                    length (blocks (inodes s' (bfsFdToInum s' fd))),
                    map (\<lambda>k. file_byte s' (bfsFdToInum s' fd) (nat c + k)) [0..<nat numb])))"

text \<open>The value returned by a write, the events of the call and the cursor after it.\<close>

definition write_trace :: "bfs \<Rightarrow> int \<Rightarrow> int \<Rightarrow> byte list \<Rightarrow> error + (int \<times> event list \<times> (error + int))" where
  "write_trace s fd numb buf =
     (case fsWrite s fd numb buf of
        Inl e \<Rightarrow> Inl e
      | Inr (s', r) \<Rightarrow> Inr (r, trace s', fsTell s' fd))"

subsection \<open>Example disks\<close>

text \<open>A disk of four blocks. Block 0 is metadata. Inode 1 is a file of 1024 bytes in
  blocks 1 and 2, open on the descriptors 3 and 4 with its cursor at \<open>c\<close>; block 3 is free
  and every byte of the image is 0.\<close>

definition ex_disk :: "int \<Rightarrow> bfs" where
  "ex_disk c =
     \<lparr>disk = (\<lambda>d. replicate 512 0),
      freelist = [True, True, True, False],
      inodes = (\<lambda>i. if i = 1 then \<lparr>isize = 1024, blocks = [1, 2]\<rparr> else \<lparr>isize = 0, blocks = []\<rparr>),
      g_oft = [\<lparr>oft_inum = 1, curs = word_of_int c, refs = 2\<rparr>],
      fdtab = (\<lambda>fd. if fd = 3 \<or> fd = 4 then 1 else 0),
      trace = []\<rparr>"

text \<open>The same disk with inode 1 a new, empty file: size 0, no block, cursor 0.\<close>

definition ex_new :: bfs where
  "ex_new =
     \<lparr>disk = (\<lambda>d. replicate 512 0),
      freelist = [True, False, False, False],
      inodes = (\<lambda>i. \<lparr>isize = 0, blocks = []\<rparr>),
      g_oft = [\<lparr>oft_inum = 1, curs = 0, refs = 2\<rparr>],
      fdtab = (\<lambda>fd. if fd = 3 \<or> fd = 4 then 1 else 0),
      trace = []\<rparr>"

text \<open>Environments of \<^verbatim>\<open>fsFormat\<close>: every step succeeds; the directory initializer
  fails with code 7.\<close>

definition env_ok :: fmt_env where
  "env_ok = \<lparr>fopen_ok = True, bfsInitSuper = 0, bfsInitInodes = 0, bfsInitDir = 0,
             bfsInitFreeList = 0\<rparr>"

definition env_dir_fails :: fmt_env where
  "env_dir_fails = \<lparr>fopen_ok = True, bfsInitSuper = 0, bfsInitInodes = 0, bfsInitDir = 7,
             bfsInitFreeList = 0\<rparr>"

section \<open>Properties\<close>

subsection \<open>Wrap-around\<close>

declare read_loop.simps [simp del]
declare write_loop.simps [simp del]

lemma i32_id: "- 2147483648 \<le> x \<Longrightarrow> x \<le> 2147483647 \<Longrightarrow> i32 x = x"
  by (simp add: i32_def)

lemma i32_range: "- 2147483648 \<le> i32 x" "i32 x \<le> 2147483647"
  by (simp_all add: i32_def)

lemma i32_add_left [simp]: "i32 (i32 a + b) = i32 (a + b)"
  by (simp add: i32_def mod_simps algebra_simps)

lemma i32_add_right [simp]: "i32 (a + i32 b) = i32 (a + b)"
  by (simp add: i32_def mod_simps algebra_simps)

lemma i32_sub_left [simp]: "i32 (i32 a - b) = i32 (a - b)"
  by (simp add: i32_def mod_simps algebra_simps)

lemma i32_idem [simp]: "i32 (i32 a) = i32 a"
  using i32_range [of a] by (simp add: i32_id)

lemma sint_word_of_int_i32: "sint (word_of_int x :: 32 word) = i32 x"
  by (simp add: sint_sbintrunc' signed_take_bit_eq_take_bit_shift take_bit_eq_mod i32_def)

lemma sint_range32: "- 2147483648 \<le> sint (w :: 32 word)" "sint (w :: 32 word) \<le> 2147483647"
  using sint_ge [of w] sint_lt [of w] by simp_all

lemma i32_sint [simp]: "i32 (sint (w :: 32 word)) = sint w"
  using sint_range32 [of w] by (simp add: i32_id)

lemma sdiv_nonneg: "0 \<le> a \<Longrightarrow> a sdiv 512 = a div (512::int)"
  by (simp add: signed_divide_int_def sgn_if)

lemma smod_nonneg: "0 \<le> a \<Longrightarrow> a smod 512 = a mod (512::int)"
  by (simp add: signed_modulo_int_def sgn_if)

subsection \<open>The open file table\<close>

lemma find_slot_Some: "find_slot P xs = Some i \<Longrightarrow> i < length xs \<and> P (xs ! i)"
  by (induction xs arbitrary: i) (auto split: if_splits)

lemma find_slot_None: "find_slot P xs = None \<Longrightarrow> \<forall>x \<in> set xs. \<not> P x"
  by (induction xs) (auto split: if_splits)

lemma find_slot_cong_map: "map P xs = map P ys \<Longrightarrow> find_slot P xs = find_slot P ys"
proof (induction xs arbitrary: ys)
  case Nil
  then show ?case by simp
next
  case (Cons x xs)
  then obtain y ys' where ys: "ys = y # ys'" by (cases ys) auto
  with Cons.prems have "P x = P y" "map P xs = map P ys'" by auto
  with Cons.IH [of ys'] show ?case by (simp add: ys)
qed

lemma map_P_upd:
  "P y = P (xs ! i) \<Longrightarrow> map P (xs[i := y]) = map P xs"
  by (induction xs arbitrary: i) (auto split: nat.splits)

lemma bfsFindOFTE_set_curs [simp]: "bfsFindOFTE (set_curs s i c) inum = bfsFindOFTE s inum"
  unfolding bfsFindOFTE_def set_curs_def
  by (simp add: find_slot_cong_map [OF map_P_upd])

lemma set_curs_fields [simp]:
  "fdtab (set_curs s i c) = fdtab s" "inodes (set_curs s i c) = inodes s"
  "disk (set_curs s i c) = disk s" "freelist (set_curs s i c) = freelist s"
  "trace (set_curs s i c) = trace s"
  by (simp_all add: set_curs_def)

lemma curs_set_curs:
  "i < length (g_oft s) \<Longrightarrow> sint (curs (g_oft (set_curs s i c) ! i)) = i32 c"
  by (simp add: set_curs_def sint_word_of_int_i32)

lemma set_curs_same: "set_curs s i (sint (curs (g_oft s ! i))) = s"
  by (simp add: set_curs_def)

lemma bfsFindOFTE_bound: "bfsFindOFTE s inum = Some i \<Longrightarrow> i < length (g_oft s)"
  unfolding bfsFindOFTE_def by (drule find_slot_Some) simp

lemma bfsTell_set_curs:
  "bfsFindOFTE s (bfsFdToInum s fd) = Some i \<Longrightarrow> bfsTell (set_curs s i c) fd = Inr (i32 c)"
  by (simp add: bfsTell_def bfsFdToInum_def curs_set_curs bfsFindOFTE_bound)

lemma bfsTell_Inr:
  "bfsTell s fd = Inr c
   \<Longrightarrow> \<exists>i. bfsFindOFTE s (bfsFdToInum s fd) = Some i \<and> sint (curs (g_oft s ! i)) = c"
  by (auto simp: bfsTell_def split: option.splits)

lemma bfsTell_range:
  assumes "bfsTell s fd = Inr c"
  shows "- 2147483648 \<le> c" "c \<le> 2147483647"
  using bfsTell_Inr [OF assms] sint_range32 by auto

lemma fsSize_set_curs [simp]: "fsSize (set_curs s i c) fd = fsSize s fd"
  by (simp add: fsSize_def bfsGetSize_def bfsFdToInum_def)

lemma fsSize_range: "- 2147483648 \<le> fsSize s fd" "fsSize s fd \<le> 2147483647"
  using sint_range32 by (simp_all add: fsSize_def bfsGetSize_def)

subsection \<open>The loops, one pass at a time\<close>

lemma write_loop_unfold:
  "write_loop inum buf fbnEnd i btw boff bo s =
     (if i \<le> fbnEnd \<and> btw \<noteq> 0 then
        (if boff > 0 then
           (case put_block s inum i (i32 (512 - boff)) buf bo (min boff btw) of
              Inl e \<Rightarrow> Inl e
            | Inr s' \<Rightarrow>
                write_loop inum buf fbnEnd (i + 1) (i32 (btw - min boff btw)) 0
                  (i32 (bo + min boff btw)) s')
         else
           (case put_block s inum i 0 buf bo (min 512 btw) of
              Inl e \<Rightarrow> Inl e
            | Inr s' \<Rightarrow>
                write_loop inum buf fbnEnd (i + 1) (i32 (btw - min 512 btw)) boff
                  (i32 (bo + min 512 btw)) s'))
      else Inr s)"
proof (cases "i \<le> fbnEnd \<and> btw \<noteq> 0")
  case False
  then show ?thesis by (subst write_loop.simps) auto
next
  case True
  have m1: "(if btw \<le> boff then btw else boff) = min boff btw" by (simp add: min_def)
  have m2: "(if btw \<le> 512 then btw else 512) = min 512 btw" by (simp add: min_def)
  show ?thesis
  proof (cases "bfsFbnToDbn s inum i")
    case (Inl e)
    with True show ?thesis by (subst write_loop.simps) (simp add: put_block_def)
  next
    case (Inr p)
    obtain s1 d where p: "p = (s1, d)" by (cases p)
    show ?thesis
    proof (cases "boff > 0")
      case b: True
      show ?thesis
      proof (cases "memcpy (fst (bioRead s1 d)) (snd (bioRead s1 d)) (i32 (512 - boff)) buf bo
                      (min boff btw)")
        case e: (Inl e)
        show ?thesis
          apply (subst write_loop.simps)
          using True Inr p b e
          apply (simp only: put_block_def Let_def m1 split_beta if_True if_False sum.case
              prod.case fst_conv snd_conv simp_thms)
          done
      next
        case q: (Inr q)
        show ?thesis
          apply (subst write_loop.simps)
          using True Inr p b q
          apply (simp only: put_block_def Let_def m1 split_beta if_True if_False sum.case
              prod.case fst_conv snd_conv simp_thms)
          done
      qed
    next
      case b: False
      show ?thesis
      proof (cases "memcpy (fst (bioRead s1 d)) (snd (bioRead s1 d)) 0 buf bo (min 512 btw)")
        case e: (Inl e)
        show ?thesis
          apply (subst write_loop.simps)
          using True Inr p b e
          apply (simp only: put_block_def Let_def m2 split_beta if_True if_False sum.case
              prod.case fst_conv snd_conv simp_thms)
          done
      next
        case q: (Inr q)
        show ?thesis
          apply (subst write_loop.simps)
          using True Inr p b q
          apply (simp only: put_block_def Let_def m2 split_beta if_True if_False sum.case
              prod.case fst_conv snd_conv simp_thms)
          done
      qed
    qed
  qed
qed

lemma read_loop_unfold:
  "read_loop inum numb fbnStart fbnEnd fbn cursor readBytes out s =
     (if fbn \<le> fbnEnd then
        (let offset = (if fbn = fbnStart then cursor smod 512 else 0);
             n = (if fbn = fbnEnd then i32 (cursor + numb) smod 512 - offset else 512 - offset)
         in case get_block s inum fbn offset n out cursor of
              Inl e \<Rightarrow> Inl e
            | Inr (s', out') \<Rightarrow>
                read_loop inum numb fbnStart fbnEnd (fbn + 1) (i32 (cursor + n))
                  (i32 (readBytes + n)) out' s')
      else Inr (s, readBytes, out))"
proof (cases "fbn \<le> fbnEnd")
  case False
  then show ?thesis by (subst read_loop.simps) auto
next
  case True
  define offset where "offset = (if fbn = fbnStart then cursor smod 512 else 0)"
  define n where
    "n = (if fbn = fbnEnd then i32 (cursor + numb) smod 512 - offset else 512 - offset)"
  note defs = offset_def [symmetric] n_def [symmetric]
  show ?thesis
  proof (cases "bfsFbnToDbn s inum fbn")
    case (Inl e)
    with True show ?thesis by (subst read_loop.simps) (simp add: get_block_def)
  next
    case (Inr p)
    obtain s1 d where p: "p = (s1, d)" by (cases p)
    show ?thesis
    proof (cases "memcpy_out (fst (bioRead s1 d)) out (snd (bioRead s1 d)) offset n")
      case e: (Inl e)
      show ?thesis
        apply (subst read_loop.simps)
        using True Inr p e
        apply (simp only: get_block_def Let_def defs split_beta if_True if_False sum.case
            prod.case fst_conv snd_conv simp_thms)
        done
    next
      case q: (Inr q)
      obtain s3 out' where q': "q = (s3, out')" by (cases q)
      show ?thesis
      proof (cases "bfsSetCursor s3 inum (i32 (cursor + n))")
        case c: (Inl e)
        show ?thesis
          apply (subst read_loop.simps)
          using True Inr p q q' c
          apply (simp only: get_block_def Let_def defs split_beta if_True if_False sum.case
              prod.case fst_conv snd_conv simp_thms)
          done
      next
        case c: (Inr s4)
        show ?thesis
          apply (subst read_loop.simps)
          using True Inr p q q' c
          apply (simp only: get_block_def Let_def defs split_beta if_True if_False sum.case
              prod.case fst_conv snd_conv simp_thms)
          done
      qed
    qed
  qed
qed

subsection \<open>fsFormat\<close>

lemma fsFormat_no_disk: "\<not> fopen_ok env \<Longrightarrow> fsFormat env = ([Fopen], Fatal_EDISKCREATE)"
  by (simp add: fsFormat_def)

lemma fsFormat_super_fails:
  "fopen_ok env \<Longrightarrow> bfsInitSuper env \<noteq> 0
   \<Longrightarrow> fsFormat env = ([Fopen, InitSuper, Fclose], Fatal (bfsInitSuper env))"
  by (simp add: fsFormat_def)

lemma fsFormat_inodes_fails:
  "fopen_ok env \<Longrightarrow> bfsInitSuper env = 0 \<Longrightarrow> bfsInitInodes env \<noteq> 0
   \<Longrightarrow> fsFormat env = ([Fopen, InitSuper, InitInodes, Fclose], Fatal (bfsInitInodes env))"
  by (simp add: fsFormat_def)

lemma fsFormat_dir_fails:
  "fopen_ok env \<Longrightarrow> bfsInitSuper env = 0 \<Longrightarrow> bfsInitInodes env = 0 \<Longrightarrow> bfsInitDir env \<noteq> 0
   \<Longrightarrow> fsFormat env = ([Fopen, InitSuper, InitInodes, InitDir, Fclose], Fatal (bfsInitDir env))"
  by (simp add: fsFormat_def)

lemma fsFormat_freelist_fails:
  "fopen_ok env \<Longrightarrow> bfsInitSuper env = 0 \<Longrightarrow> bfsInitInodes env = 0 \<Longrightarrow> bfsInitDir env = 0
   \<Longrightarrow> bfsInitFreeList env \<noteq> 0
   \<Longrightarrow> fsFormat env = ([Fopen, InitSuper, InitInodes, InitDir, InitFreeList, Fclose],
                          Fatal (bfsInitFreeList env))"
  by (simp add: fsFormat_def)

lemma fsFormat_success:
  "fopen_ok env \<Longrightarrow> bfsInitSuper env = 0 \<Longrightarrow> bfsInitInodes env = 0 \<Longrightarrow> bfsInitDir env = 0
   \<Longrightarrow> bfsInitFreeList env = 0
   \<Longrightarrow> fsFormat env = ([Fopen, InitSuper, InitInodes, InitDir, InitFreeList, Fclose], Return 0)"
  by (simp add: fsFormat_def)

text \<open>
  Claim C7. \<^verbatim>\<open>fsFormat\<close> initializes the SuperBlock, then the Inode table, then the
  Directory, then the Free-List, in that order. When the image is created and every
  initializer returns 0, all four run in that order and the call returns 0. In every other
  case the call does not return: it ends the process, with \<^verbatim>\<open>EDISKCREATE\<close> exactly when
  the image cannot be created, and the initializers that ran are an initial part of the
  order. No value other than 0 is ever returned.
\<close>

theorem fsFormat_order_and_abort:
  "(fopen_ok env \<and> bfsInitSuper env = 0 \<and> bfsInitInodes env = 0 \<and> bfsInitDir env = 0
      \<and> bfsInitFreeList env = 0
      \<longrightarrow> fsFormat env = ([Fopen, InitSuper, InitInodes, InitDir, InitFreeList, Fclose], Return 0))
   \<and> (\<not> (fopen_ok env \<and> bfsInitSuper env = 0 \<and> bfsInitInodes env = 0 \<and> bfsInitDir env = 0
      \<and> bfsInitFreeList env = 0)
      \<longrightarrow> (\<forall>v. snd (fsFormat env) \<noteq> Return v)
          \<and> (snd (fsFormat env) = Fatal_EDISKCREATE \<longleftrightarrow> \<not> fopen_ok env))
   \<and> (\<forall>v. snd (fsFormat env) = Return v \<longrightarrow> v = 0)
   \<and> filter is_init (fst (fsFormat env)) \<in>
        {[], [InitSuper], [InitSuper, InitInodes], [InitSuper, InitInodes, InitDir],
         [InitSuper, InitInodes, InitDir, InitFreeList]}"
proof (cases "fopen_ok env")
  case False
  then show ?thesis by (simp add: fsFormat_no_disk)
next
  case op: True
  show ?thesis
  proof (cases "bfsInitSuper env = 0")
    case False
    with op show ?thesis by (simp add: fsFormat_super_fails)
  next
    case su: True
    show ?thesis
    proof (cases "bfsInitInodes env = 0")
      case False
      with op su show ?thesis by (simp add: fsFormat_inodes_fails)
    next
      case ino: True
      show ?thesis
      proof (cases "bfsInitDir env = 0")
        case False
        with op su ino show ?thesis by (simp add: fsFormat_dir_fails)
      next
        case di: True
        show ?thesis
        proof (cases "bfsInitFreeList env = 0")
          case False
          with op su ino di show ?thesis by (simp add: fsFormat_freelist_fails)
        next
          case True
          with op su ino di show ?thesis by (simp add: fsFormat_success)
        qed
      qed
    qed
  qed
qed

theorem fsFormat_order_and_abort_witness:
  "fsFormat env_ok = ([Fopen, InitSuper, InitInodes, InitDir, InitFreeList, Fclose], Return 0)
   \<and> snd (fsFormat env_dir_fails) \<noteq> Return 7 \<and> snd (fsFormat env_dir_fails) \<noteq> Fatal_EDISKCREATE"
  using fsFormat_order_and_abort [of env_ok] fsFormat_order_and_abort [of env_dir_fails]
  by (simp add: env_ok_def env_dir_fails_def)

subsection \<open>fsClose\<close>





subsection \<open>fsWrite of zero bytes\<close>

text \<open>
  Claim C10. On an open descriptor, \<^verbatim>\<open>fsWrite\<close> with \<open>numb = 0\<close> returns 0 and leaves
  the whole state as it was: the loop leaves at its first test of \<open>bytesToWrite\<close>, so no
  file block is resolved and no block is read or written (the trace is part of the state),
  and the cursor is set to the value it had.
\<close>

theorem fsWrite_zero_bytes:
  "is_open s fd \<Longrightarrow> fsWrite s fd 0 buf = Inr (s, 0)"
  by (auto simp: is_open_def fsWrite_def bfsTell_def bfsSetCursor_def set_curs_same
      write_loop_unfold)

theorem fsWrite_zero_bytes_witness:
  "is_open (ex_disk 5) 3 \<and> fsWrite (ex_disk 5) 3 0 [] = Inr (ex_disk 5, 0)"
proof -
  have h: "is_open (ex_disk 5) 3" by code_simp
  from fsWrite_zero_bytes [OF h] h show ?thesis by simp
qed

subsection \<open>What a write leaves alone\<close>

lemma put_block_frame:
  "put_block s inum i off buf bo w = Inr s'
   \<Longrightarrow> g_oft s' = g_oft s \<and> fdtab s' = fdtab s \<and> (\<forall>n. isize (inodes s' n) = isize (inodes s n))"
  by (auto simp: put_block_def bfsFbnToDbn_def bfsAllocBlock_def bioRead_def bioWrite_def
      memcpy_def Let_def split: sum.splits if_splits option.splits prod.splits)

lemma write_loop_frame:
  "write_loop inum buf fbnEnd i btw boff bo s = Inr s'
   \<Longrightarrow> g_oft s' = g_oft s \<and> fdtab s' = fdtab s \<and> (\<forall>n. isize (inodes s' n) = isize (inodes s n))"
proof (induction "nat (fbnEnd + 1 - i)" arbitrary: i btw boff bo s)
  case 0
  then show ?case by (subst (asm) write_loop_unfold) simp
next
  case (Suc k)
  show ?case
  proof (cases "i \<le> fbnEnd \<and> btw \<noteq> 0")
    case False
    with Suc.prems show ?thesis by (subst (asm) write_loop_unfold) auto
  next
    case True
    from Suc.hyps(2) have k: "k = nat (fbnEnd + 1 - (i + 1))" by simp
    from Suc.prems True obtain s1 btw' boff' bo' off w where
      pb: "put_block s inum i off buf bo w = Inr s1" and
      wl: "write_loop inum buf fbnEnd (i + 1) btw' boff' bo' s1 = Inr s'"
      by (subst (asm) write_loop_unfold) (auto split: if_splits sum.splits)
    from Suc.hyps(1) [OF k wl] put_block_frame [OF pb] show ?thesis by simp
  qed
qed

lemma fsWrite_Inr:
  assumes "fsWrite s fd numb buf = Inr (s', r)"
  shows "\<exists>c ofte s1. bfsTell s fd = Inr c
           \<and> write_loop (bfsFdToInum s fd) buf (i32 (c + numb) sdiv 512) (c sdiv 512) numb
                (i32 (i32 ((c sdiv 512 + 1) * 512) - c)) 0 s = Inr s1
           \<and> bfsFindOFTE s (bfsFdToInum s fd) = Some ofte
           \<and> s' = set_curs s1 ofte (i32 (c + numb)) \<and> r = 0"
proof -
  from assms obtain c where c: "bfsTell s fd = Inr c"
    by (cases "bfsTell s fd") (auto simp: fsWrite_def)
  from assms c obtain s1 where
    wl: "write_loop (bfsFdToInum s fd) buf (i32 (c + numb) sdiv 512) (c sdiv 512) numb
           (i32 (i32 ((c sdiv 512 + 1) * 512) - c)) 0 s = Inr s1"
    by (auto simp: fsWrite_def Let_def split: sum.splits)
  from assms c wl have sc: "bfsSetCursor s1 (bfsFdToInum s fd) (i32 (c + numb)) = Inr s'"
    and r: "r = 0"
    by (auto simp: fsWrite_def Let_def split: sum.splits)
  from write_loop_frame [OF wl] have g: "g_oft s1 = g_oft s" by simp
  then have f: "bfsFindOFTE s1 (bfsFdToInum s fd) = bfsFindOFTE s (bfsFdToInum s fd)"
    by (simp add: bfsFindOFTE_def)
  from sc obtain ofte where o: "bfsFindOFTE s1 (bfsFdToInum s fd) = Some ofte"
    and s': "s' = set_curs s1 ofte (i32 (c + numb))"
    by (auto simp: bfsSetCursor_def split: option.splits)
  from o f have "bfsFindOFTE s (bfsFdToInum s fd) = Some ofte" by simp
  with c wl s' r show ?thesis by blast
qed

lemma fsWrite_tell:
  assumes "fsWrite s fd numb buf = Inr (s', r)" "bfsTell s fd = Inr c"
    "bfsFdToInum s fd2 = bfsFdToInum s fd"
  shows "bfsTell s' fd2 = Inr (i32 (c + numb)) \<and> fdtab s' = fdtab s"
proof -
  from fsWrite_Inr [OF assms(1)] assms(2) obtain ofte s1 where
    wl: "write_loop (bfsFdToInum s fd) buf (i32 (c + numb) sdiv 512) (c sdiv 512) numb
           (i32 (i32 ((c sdiv 512 + 1) * 512) - c)) 0 s = Inr s1"
    and f: "bfsFindOFTE s (bfsFdToInum s fd) = Some ofte"
    and s': "s' = set_curs s1 ofte (i32 (c + numb))"
    by auto
  from write_loop_frame [OF wl] have g: "g_oft s1 = g_oft s" "fdtab s1 = fdtab s" by simp_all
  from g f assms(3) have "bfsFindOFTE s1 (bfsFdToInum s1 fd2) = Some ofte"
    by (simp add: bfsFindOFTE_def bfsFdToInum_def)
  from bfsTell_set_curs [OF this] s' g show ?thesis by simp
qed

lemma fsWrite_size:
  assumes "fsWrite s fd numb buf = Inr (s', r)"
  shows "fsSize s' fd2 = fsSize s fd2"
proof -
  from fsWrite_Inr [OF assms] obtain c ofte s1 where
    wl: "write_loop (bfsFdToInum s fd) buf (i32 (c + numb) sdiv 512) (c sdiv 512) numb
           (i32 (i32 ((c sdiv 512 + 1) * 512) - c)) 0 s = Inr s1"
    and s': "s' = set_curs s1 ofte (i32 (c + numb))"
    by auto
  from write_loop_frame [OF wl] s' show ?thesis
    by (simp add: fsSize_def bfsGetSize_def bfsFdToInum_def)
qed


subsection \<open>What a read does\<close>

lemma bfsFbnToDbn_Inr:
  assumes "bfsFbnToDbn s inum i = Inr (s1, d)"
  shows "0 \<le> i" "disk s1 = disk s" "g_oft s1 = g_oft s" "fdtab s1 = fdtab s"
    "nat i < length (blocks (inodes s1 inum))" "blocks (inodes s1 inum) ! nat i = d"
    "\<forall>j < length (blocks (inodes s inum)). j < length (blocks (inodes s1 inum))
        \<and> blocks (inodes s1 inum) ! j = blocks (inodes s inum) ! j"
    "trace s1 = trace s @ [Resolve inum i]"
proof -
  let ?bl = "blocks (inodes s inum)"
  let ?s0 = "s\<lparr>trace := trace s @ [Resolve inum i]\<rparr>"
  have "0 \<le> i \<and> disk s1 = disk s \<and> g_oft s1 = g_oft s \<and> fdtab s1 = fdtab s
      \<and> nat i < length (blocks (inodes s1 inum)) \<and> blocks (inodes s1 inum) ! nat i = d
      \<and> (\<forall>j < length ?bl. j < length (blocks (inodes s1 inum))
            \<and> blocks (inodes s1 inum) ! j = ?bl ! j)
      \<and> trace s1 = trace s @ [Resolve inum i]"
  proof (cases "0 \<le> i \<and> nat i < length ?bl")
    case True
    with assms have "s1 = ?s0" "d = ?bl ! nat i"
      by (auto simp: bfsFbnToDbn_def Let_def)
    with True show ?thesis by simp
  next
    case False
    with assms have eq: "i = int (length ?bl)"
      by (auto simp: bfsFbnToDbn_def Let_def split: if_splits)
    with assms False obtain sa where al: "bfsAllocBlock ?s0 = Inr (sa, d)"
      and s1: "s1 = sa\<lparr>inodes := (inodes sa)(inum := (inodes s inum)\<lparr>blocks := ?bl @ [d]\<rparr>)\<rparr>"
      by (auto simp: bfsFbnToDbn_def Let_def split: sum.splits if_splits)
    from al have sa: "sa = ?s0\<lparr>freelist := (freelist s)[d := True]\<rparr>"
      by (auto simp: bfsAllocBlock_def split: option.splits)
    from s1 sa have bl1: "blocks (inodes s1 inum) = ?bl @ [d]" by simp
    from eq have "nat i = length ?bl" "0 \<le> i" by simp_all
    with bl1 s1 sa show ?thesis by (auto simp: nth_append)
  qed
  then show "0 \<le> i" "disk s1 = disk s" "g_oft s1 = g_oft s" "fdtab s1 = fdtab s"
    "nat i < length (blocks (inodes s1 inum))" "blocks (inodes s1 inum) ! nat i = d"
    "\<forall>j < length (blocks (inodes s inum)). j < length (blocks (inodes s1 inum))
        \<and> blocks (inodes s1 inum) ! j = blocks (inodes s inum) ! j"
    "trace s1 = trace s @ [Resolve inum i]"
    by blast+
qed

lemma get_block_Inr:
  assumes "get_block s inum fbn offset n out cursor = Inr (s', out')"
  shows "\<exists>s1 d ofte. bfsFbnToDbn s inum fbn = Inr (s1, d)
      \<and> 0 \<le> n \<and> 0 \<le> offset \<and> offset + n \<le> int (length (disk s d))
      \<and> out' = out @ take (nat n) (drop (nat offset) (disk s d))
      \<and> bfsFindOFTE s inum = Some ofte
      \<and> s' = set_curs (s1\<lparr>trace := trace s1 @ [BioRead d, Memcpy n]\<rparr>) ofte (i32 (cursor + n))"
proof -
  from assms obtain s1 d where r: "bfsFbnToDbn s inum fbn = Inr (s1, d)"
    by (cases "bfsFbnToDbn s inum fbn") (auto simp: get_block_def)
  note f = bfsFbnToDbn_Inr [OF r]
  let ?s2 = "s1\<lparr>trace := trace s1 @ [BioRead d]\<rparr>"
  from assms r obtain s3 where
    m: "memcpy_out ?s2 out (disk s1 d) offset n = Inr (s3, out')"
    and c: "bfsSetCursor s3 inum (i32 (cursor + n)) = Inr s'"
    by (auto simp: get_block_def bioRead_def split: sum.splits)
  from m have b: "0 \<le> n" "0 \<le> offset" "offset + n \<le> int (length (disk s1 d))"
    and o: "out' = out @ take (nat n) (drop (nat offset) (disk s1 d))"
    and s3: "s3 = s1\<lparr>trace := trace s1 @ [BioRead d, Memcpy n]\<rparr>"
    by (auto simp: memcpy_out_def split: if_splits)
  from c obtain ofte where fo: "bfsFindOFTE s3 inum = Some ofte"
    and s': "s' = set_curs s3 ofte (i32 (cursor + n))"
    by (auto simp: bfsSetCursor_def split: option.splits)
  from fo s3 f(3) have "bfsFindOFTE s inum = Some ofte" by (simp add: bfsFindOFTE_def)
  with r b o s' s3 f(2) show ?thesis by auto
qed

lemma get_block_frame:
  assumes "get_block s inum fbn offset n out cursor = Inr (s', out')"
  shows "disk s' = disk s" "fdtab s' = fdtab s" "bfsFindOFTE s' i = bfsFindOFTE s i"
    "0 \<le> fbn" "nat fbn < length (blocks (inodes s' inum))"
    "\<forall>j < length (blocks (inodes s inum)). j < length (blocks (inodes s' inum))
        \<and> blocks (inodes s' inum) ! j = blocks (inodes s inum) ! j"
    "0 \<le> n" "0 \<le> offset" "offset + n \<le> int (length (disk s (blocks (inodes s' inum) ! nat fbn)))"
    "out' = out @ take (nat n) (drop (nat offset) (disk s (blocks (inodes s' inum) ! nat fbn)))"
    "\<exists>dbn. trace s' = trace s @ [Resolve inum fbn, BioRead dbn, Memcpy n]"
    "\<And>ofte. bfsFindOFTE s inum = Some ofte \<Longrightarrow> sint (curs (g_oft s' ! ofte)) = i32 (cursor + n)"
proof -
  from get_block_Inr [OF assms] obtain s1 d ofte where
    r: "bfsFbnToDbn s inum fbn = Inr (s1, d)"
    and b: "0 \<le> n" "0 \<le> offset" "offset + n \<le> int (length (disk s d))"
    and o: "out' = out @ take (nat n) (drop (nat offset) (disk s d))"
    and fo: "bfsFindOFTE s inum = Some ofte"
    and s': "s' = set_curs (s1\<lparr>trace := trace s1 @ [BioRead d, Memcpy n]\<rparr>) ofte (i32 (cursor + n))"
    by blast
  note f = bfsFbnToDbn_Inr [OF r]
  from s' f(2) show "disk s' = disk s" by simp
  from s' f(4) show "fdtab s' = fdtab s" by simp
  have "bfsFindOFTE s' i = bfsFindOFTE (s1\<lparr>trace := trace s1 @ [BioRead d, Memcpy n]\<rparr>) i"
    unfolding s' by simp
  also from f(3) have "\<dots> = bfsFindOFTE s i" by (simp add: bfsFindOFTE_def)
  finally show "bfsFindOFTE s' i = bfsFindOFTE s i" .
  from f(1) show "0 \<le> fbn" .
  from s' have bl: "blocks (inodes s' inum) = blocks (inodes s1 inum)" by simp
  from f(5) bl show "nat fbn < length (blocks (inodes s' inum))" by simp
  from f(7) bl show "\<forall>j < length (blocks (inodes s inum)). j < length (blocks (inodes s' inum))
        \<and> blocks (inodes s' inum) ! j = blocks (inodes s inum) ! j" by simp
  from b show "0 \<le> n" "0 \<le> offset" by simp_all
  from b(3) f(6) bl
  show "offset + n \<le> int (length (disk s (blocks (inodes s' inum) ! nat fbn)))" by simp
  from o f(6) bl
  show "out' = out @ take (nat n) (drop (nat offset) (disk s (blocks (inodes s' inum) ! nat fbn)))"
    by simp
  from s' f(8) show "\<exists>dbn. trace s' = trace s @ [Resolve inum fbn, BioRead dbn, Memcpy n]"
    by simp
  show "sint (curs (g_oft s' ! ofte')) = i32 (cursor + n)"
    if "bfsFindOFTE s inum = Some ofte'" for ofte'
  proof -
    from that fo have e: "ofte' = ofte" by simp
    from fo f(3) have "ofte < length (g_oft (s1\<lparr>trace := trace s1 @ [BioRead d, Memcpy n]\<rparr>))"
      using bfsFindOFTE_bound [OF fo] by simp
    from curs_set_curs [OF this] s' e show ?thesis by simp
  qed
qed




lemma read_loop_step:
  assumes "fbn \<le> fe"
    and "offset = (if fbn = fs then cursor smod 512 else 0)"
    and "k = (if fbn = fe then i32 (cursor + numb) smod 512 - offset else 512 - offset)"
    and "read_loop inum numb fs fe fbn cursor rb out s = Inr res"
  obtains s1 out1 where "get_block s inum fbn offset k out cursor = Inr (s1, out1)"
    and "read_loop inum numb fs fe (fbn + 1) (i32 (cursor + k)) (i32 (rb + k)) out1 s1 = Inr res"
proof -
  from assms(4,1) have
    "(case get_block s inum fbn offset k out cursor of
        Inl e \<Rightarrow> Inl e
      | Inr (s1, out1) \<Rightarrow>
          read_loop inum numb fs fe (fbn + 1) (i32 (cursor + k)) (i32 (rb + k)) out1 s1)
     = Inr res"
    unfolding assms(3) assms(2) by (subst (asm) read_loop_unfold) (simp add: Let_def)
  then show ?thesis
    using that by (cases "get_block s inum fbn offset k out cursor") auto
qed

subsection \<open>Cursor sharing\<close>



subsection \<open>fsSeek\<close>

lemma tell_after_seek_open:
  assumes "bfsFindOFTE s (bfsFdToInum s fd) = Some ofte" "0 \<le> offset"
  shows "tell_after_seek s fd offset SEEK_SET = Inr (i32 offset)"
    "tell_after_seek s fd offset SEEK_CUR = Inr (i32 (sint (curs (g_oft s ! ofte)) + offset))"
    "tell_after_seek s fd offset SEEK_END = Inr (i32 (fsSize s fd + offset))"
  using assms
  by (simp_all add: tell_after_seek_def fsSeek_def fsTell_def bfsTell_set_curs)

text \<open>
  Claim C5, as the code has it. On an open descriptor with cursor \<open>c\<close>, \<^verbatim>\<open>fsSeek\<close> ends
  with \<^verbatim>\<open>EBADCURS\<close> exactly when \<open>offset\<close> is negative, whatever \<open>whence\<close> is: the test
  comes before the switch. For an \<^verbatim>\<open>i32\<close> \<open>offset \<ge> 0\<close>, \<^verbatim>\<open>SEEK_SET\<close> makes the
  cursor \<open>offset\<close>; \<^verbatim>\<open>SEEK_CUR\<close> makes it \<open>c + offset\<close> when that sum is within
  \<^verbatim>\<open>i32\<close>; \<^verbatim>\<open>SEEK_END\<close> makes it the size of the file plus \<open>offset\<close> when that sum is
  within \<^verbatim>\<open>i32\<close>. So a seek of 0 from the end followed by \<^verbatim>\<open>fsTell\<close> gives the size.
\<close>

theorem fsSeek_semantics:
  assumes "fsTell s fd = Inr c"
  shows "(fsSeek s fd offset whence = Inl EBADCURS \<longleftrightarrow> offset < 0)
     \<and> (0 \<le> offset \<and> offset \<le> INT32_MAX \<longrightarrow>
          tell_after_seek s fd offset SEEK_SET = Inr offset)
     \<and> (0 \<le> offset \<and> c + offset \<le> INT32_MAX \<longrightarrow>
          tell_after_seek s fd offset SEEK_CUR = Inr (c + offset))
     \<and> (0 \<le> offset \<and> fsSize s fd + offset \<le> INT32_MAX \<longrightarrow>
          tell_after_seek s fd offset SEEK_END = Inr (fsSize s fd + offset))
     \<and> tell_after_seek s fd 0 SEEK_END = Inr (fsSize s fd)"
proof -
  from assms obtain ofte where f: "bfsFindOFTE s (bfsFdToInum s fd) = Some ofte"
    and c: "sint (curs (g_oft s ! ofte)) = c"
    using bfsTell_Inr [of s fd c] by (auto simp: fsTell_def)
  from c sint_range32 [of "curs (g_oft s ! ofte)"] have cr: "- 2147483648 \<le> c" by simp
  note sr = fsSize_range [of s fd]
  have a: "fsSeek s fd offset whence = Inl EBADCURS \<longleftrightarrow> offset < 0"
    using f by (simp add: fsSeek_def)
  have b: "tell_after_seek s fd offset SEEK_SET = Inr offset"
    if "0 \<le> offset" "offset \<le> 2147483647"
    using tell_after_seek_open(1) [OF f that(1)] that by (simp add: i32_id)
  have d: "tell_after_seek s fd offset SEEK_CUR = Inr (c + offset)"
    if "0 \<le> offset" "c + offset \<le> 2147483647"
    using tell_after_seek_open(2) [OF f that(1)] that c cr by (simp add: i32_id)
  have e: "tell_after_seek s fd offset SEEK_END = Inr (fsSize s fd + offset)"
    if "0 \<le> offset" "fsSize s fd + offset \<le> 2147483647"
    using tell_after_seek_open(3) [OF f that(1)] that sr by (simp add: i32_id)
  have g: "tell_after_seek s fd 0 SEEK_END = Inr (fsSize s fd)"
    using tell_after_seek_open(3) [OF f, of 0] sr by (simp add: i32_id)
  from a b d e g show ?thesis by blast
qed

theorem fsSeek_semantics_witness:
  "fsTell (ex_disk 5) 3 = Inr 5
   \<and> fsSeek (ex_disk 5) 3 (-1) SEEK_SET = Inl EBADCURS
   \<and> tell_after_seek (ex_disk 5) 3 7 SEEK_SET = Inr 7
   \<and> tell_after_seek (ex_disk 5) 3 7 SEEK_CUR = Inr 12
   \<and> tell_after_seek (ex_disk 5) 3 7 SEEK_END = Inr 1031
   \<and> tell_after_seek (ex_disk 5) 3 0 SEEK_END = Inr (fsSize (ex_disk 5) 3)"
proof -
  have h: "fsTell (ex_disk 5) 3 = Inr 5" by code_simp
  have sz: "fsSize (ex_disk 5) 3 = 1024" by code_simp
  from fsSeek_semantics [OF h, of 7 SEEK_SET] fsSeek_semantics [OF h, of "-1" SEEK_SET] h sz
  show ?thesis by simp
qed

text \<open>
  The claim as stated promises that \<^verbatim>\<open>SEEK_CUR\<close> adds the offset to the cursor. With the
  cursor at 5 and offset -1 the call does not move the cursor to 4: it ends the process
  with \<^verbatim>\<open>EBADCURS\<close>.
\<close>

theorem fsSeek_cur_negative_counterexample:
  "fsTell (ex_disk 5) 3 = Inr 5 \<and> fsSeek (ex_disk 5) 3 (-1) SEEK_CUR = Inl EBADCURS"
proof -
  have "fsTell (ex_disk 5) 3 = Inr 5" by code_simp
  moreover have "fsSeek (ex_disk 5) 3 (-1) SEEK_CUR = Inl EBADCURS" by (simp add: fsSeek_def)
  ultimately show ?thesis by simp
qed

subsection \<open>Reads that cross a block boundary\<close>

text \<open>
  Claim C1 at a concrete input. On the file of 1024 bytes, 512 bytes of value 7 are
  written at cursor 511, the cursor is set back to 511 and 512 bytes are read. The write
  stores all 512 bytes; the read returns the count 1 and the single byte 7. In the last
  pass of the loop of \<^verbatim>\<open>fsRead\<close> the local \<open>cursor\<close> has already been advanced, so
  \<^verbatim>\<open>(cursor + numb) % BYTESPERBLOCK\<close> is \<open>numb mod 512\<close> and not the offset of the end
  of the range.
\<close>

theorem round_trip_across_blocks:
  "write_then_read (ex_disk 0) 3 511 (replicate 512 7) = Inr (1, [7])"
  by code_simp

text \<open>
  Claim C2 at concrete inputs. The file has 1024 bytes and the cursor is at 511. A read
  of 2 bytes returns the count 3, more than was asked for; a read of 512 bytes returns the
  count 1, although bytes 511 to 1022 are all inside the file.
\<close>

theorem fsRead_count_across_blocks:
  "fsSize (ex_disk 511) 3 = 1024
   \<and> read_result (ex_disk 511) 3 2 = Inr (3, [0, 0, 0])
   \<and> read_result (ex_disk 511) 3 512 = Inr (1, [0])"
  by code_simp

subsection \<open>The size of a file after a write\<close>

text \<open>
  Claim C4 at a concrete input. The file is empty (size 0, cursor 0). After \<^verbatim>\<open>fsWrite\<close>
  of one byte, \<^verbatim>\<open>fsSize\<close> still returns 0: \<^verbatim>\<open>fsWrite\<close> calls nothing that sets the
  size (lemma \<open>fsWrite_size\<close> shows that no write changes it).
\<close>

theorem fsWrite_at_end_size:
  "fsSize ex_new 3 = 0 \<and> fsTell ex_new 3 = Inr 0 \<and> size_after_write ex_new 3 1 [5] = Inr 0"
  by code_simp

subsection \<open>The blocks a read touches\<close>

lemma i32_mod_512: "i32 x mod 512 = x mod 512"
proof -
  have d: "(512::int) dvd 4294967296" by simp
  have "i32 x mod 512 = ((x + 2147483648) mod 4294967296 - 2147483648) mod 512"
    by (simp add: i32_def)
  also have "\<dots> = ((x + 2147483648) mod 4294967296 mod 512 - 2147483648 mod 512) mod 512"
    by (simp only: mod_diff_eq)
  also have "\<dots> = ((x + 2147483648) mod 512 - 2147483648 mod 512) mod 512"
    by (simp only: mod_mod_cancel [OF d])
  also have "\<dots> = (x + 2147483648 - 2147483648) mod 512"
    by (simp only: mod_diff_eq)
  finally show ?thesis by simp
qed

lemma smod_512_zero: "y mod 512 = 0 \<Longrightarrow> y smod 512 = (0::int)"
proof -
  assume "y mod 512 = 0"
  then have "512 dvd y" by (simp add: mod_eq_0_iff_dvd)
  then have "512 dvd \<bar>y\<bar>" by simp
  then have "\<bar>y\<bar> mod 512 = 0" by (simp add: mod_eq_0_iff_dvd)
  then show ?thesis by (simp add: signed_modulo_int_def)
qed

lemma read_loop_last_pass:
  assumes "fbnStart < fbn" "fbn \<le> fbnEnd" "cursor mod 512 = 0"
    and "read_loop inum numb fbnStart fbnEnd fbn cursor rb out s = Inr (s', n, out')"
  shows "\<exists>pre dbn k. trace s' = trace s @ pre @ [Resolve inum fbnEnd, BioRead dbn, Memcpy k]
           \<and> (numb mod 512 = 0 \<longrightarrow> k = 0)"
  using assms
proof (induction "nat (fbnEnd - fbn)" arbitrary: fbn cursor rb out s)
  case 0
  then have fe: "fbn = fbnEnd" by simp
  define k where "k = i32 (cursor + numb) smod 512 - 0"
  have oe: "0 = (if fbn = fbnStart then cursor smod 512 else 0)" using "0.prems"(1) by simp
  have ke: "k = (if fbn = fbnEnd then i32 (cursor + numb) smod 512 - 0 else 512 - 0)"
    using fe by (simp add: k_def)
  from read_loop_step [OF "0.prems"(2) oe ke "0.prems"(4)] obtain s1 out1 where
    gb: "get_block s inum fbn 0 k out cursor = Inr (s1, out1)" and
    rl: "read_loop inum numb fbnStart fbnEnd (fbn + 1) (i32 (cursor + k)) (i32 (rb + k)) out1 s1
           = Inr (s', n, out')"
    by blast
  from rl fe have "s' = s1" by (subst (asm) read_loop_unfold) simp
  with get_block_frame(11) [OF gb] fe obtain dbn where
    t: "trace s' = trace s @ [] @ [Resolve inum fbnEnd, BioRead dbn, Memcpy k]" by auto
  have "k = 0" if "numb mod 512 = 0"
  proof -
    from that "0.prems"(3) have "(cursor + numb) mod 512 = 0" by (simp add: mod_add_eq [symmetric])
    then have "i32 (cursor + numb) mod 512 = 0" by (simp add: i32_mod_512)
    from smod_512_zero [OF this] show ?thesis by (simp add: k_def)
  qed
  with t show ?case by blast
next
  case (Suc j)
  then have lt: "fbn < fbnEnd" and j: "j = nat (fbnEnd - (fbn + 1))" by simp_all
  have oe: "0 = (if fbn = fbnStart then cursor smod 512 else 0)" using Suc.prems(1) by simp
  have ke: "512 = (if fbn = fbnEnd then i32 (cursor + numb) smod 512 - 0 else 512 - 0)"
    using lt by simp
  from read_loop_step [OF Suc.prems(2) oe ke Suc.prems(4)] obtain s1 out1 where
    gb: "get_block s inum fbn 0 512 out cursor = Inr (s1, out1)" and
    rl: "read_loop inum numb fbnStart fbnEnd (fbn + 1) (i32 (cursor + 512)) (i32 (rb + 512))
           out1 s1 = Inr (s', n, out')"
    by blast
  from Suc.prems(3) have al: "i32 (cursor + 512) mod 512 = 0" by (simp add: i32_mod_512)
  from Suc.prems(1) lt have "fbnStart < fbn + 1" "fbn + 1 \<le> fbnEnd" by simp_all
  from Suc.hyps(1) [OF j this al rl] obtain pre dbn k where
    "trace s' = trace s1 @ pre @ [Resolve inum fbnEnd, BioRead dbn, Memcpy k]"
    "numb mod 512 = 0 \<longrightarrow> k = 0"
    by blast
  moreover from get_block_frame(11) [OF gb] obtain d where
    "trace s1 = trace s @ [Resolve inum fbn, BioRead d, Memcpy 512]" by blast
  ultimately have "trace s' = trace s @ ([Resolve inum fbn, BioRead d, Memcpy 512] @ pre)
      @ [Resolve inum fbnEnd, BioRead dbn, Memcpy k] \<and> (numb mod 512 = 0 \<longrightarrow> k = 0)" by simp
  then show ?case by blast
qed

lemma block_arith:
  fixes c numb :: int
  assumes "0 \<le> c" "0 < numb" "(c + numb) mod 512 = 0"
  shows "c div 512 < (c + numb) div 512"
proof -
  from assms(3) have "c + numb = 512 * ((c + numb) div 512)" by (simp add: mod_eq_0_iff_dvd)
  moreover have "c < 512 * (c div 512) + 512"
    using pos_mod_bound [of 512 c] mult_div_mod_eq [of 512 c] by linarith
  ultimately have "512 * (c div 512) < 512 * ((c + numb) div 512)"
    using assms(2) mult_div_mod_eq [of 512 c] pos_mod_sign [of 512 c] by linarith
  then show ?thesis by simp
qed

lemma align_arith:
  fixes c :: int
  shows "(c + (512 - c mod 512)) mod 512 = 0"
proof -
  have e: "c + (512 - c mod 512) = 512 * (c div 512 + 1)"
    using mult_div_mod_eq [of 512 c] by (simp add: algebra_simps)
  show "(c + (512 - c mod 512)) mod 512 = 0" by (subst e) simp
qed

text \<open>
  What holds of a read that ends on a block boundary, whatever the input. Let
  \<^verbatim>\<open>fsRead\<close> of \<open>numb > 0\<close> bytes from cursor \<open>c \<ge> 0\<close> end on a block boundary
  (\<open>c + numb\<close> is within \<^verbatim>\<open>i32\<close> and a multiple of \<^verbatim>\<open>BYTESPERBLOCK\<close>) and return. Then
  the last pass of its loop resolves the file block \<open>(c + numb) / BYTESPERBLOCK\<close>, the
  block after the one that holds the last byte asked for, through \<^verbatim>\<open>bfsFbnToDbn\<close>, and
  reads that physical block: these are the last events of the call, followed only by the
  copy out of that block. When \<open>numb\<close> is itself a multiple of \<^verbatim>\<open>BYTESPERBLOCK\<close> that copy
  is of zero bytes.
\<close>

theorem fsRead_block_boundary:
  assumes "fsTell s fd = Inr c" "0 \<le> c" "0 < numb" "c + numb \<le> INT32_MAX"
    and "(c + numb) mod 512 = 0"
    and "fsRead s fd numb = Inr (s', n, out)"
  shows "\<exists>pre dbn k. trace s' = trace s @ pre
            @ [Resolve (bfsFdToInum s fd) ((c + numb) sdiv BYTESPERBLOCK), BioRead dbn, Memcpy k]
          \<and> (numb mod 512 = 0 \<longrightarrow> k = 0)"
proof -
  define inum where "inum = bfsFdToInum s fd"
  define fs where "fs = c div 512"
  define fe where "fe = (c + numb) div 512"
  define r where "r = c mod 512"
  from assms(2,3,4) have icn: "i32 (c + numb) = c + numb" by (simp add: i32_id)
  from assms(2,3) have sd: "c sdiv 512 = fs" "(c + numb) sdiv 512 = fe" "c smod 512 = r"
    by (simp_all add: sdiv_nonneg smod_nonneg fs_def fe_def r_def)
  from block_arith [OF assms(2,3,5)] have lt: "fs < fe" by (simp add: fs_def fe_def)
  from assms(1,6) have rl: "read_loop inum numb fs fe fs c 0 [] s = Inr (s', n, out)"
    by (simp add: fsRead_def fsTell_def Let_def sd icn inum_def)
  have oe: "r = (if fs = fs then c smod 512 else 0)" by (simp add: sd)
  from lt have ke: "512 - r = (if fs = fe then i32 (c + numb) smod 512 - r else 512 - r)" by simp
  from lt have le: "fs \<le> fe" by simp
  from read_loop_step [OF le oe ke rl] obtain s1 out1 where
    gb: "get_block s inum fs r (512 - r) [] c = Inr (s1, out1)" and
    rl1: "read_loop inum numb fs fe (fs + 1) (i32 (c + (512 - r))) (i32 (0 + (512 - r))) out1 s1
            = Inr (s', n, out)"
    by blast
  from align_arith [of c] have al: "i32 (c + (512 - r)) mod 512 = 0"
    by (simp add: r_def i32_mod_512)
  from lt have "fs < fs + 1" "fs + 1 \<le> fe" by simp_all
  from read_loop_last_pass [OF this al rl1] obtain pre dbn k where
    "trace s' = trace s1 @ pre @ [Resolve inum fe, BioRead dbn, Memcpy k]"
    "numb mod 512 = 0 \<longrightarrow> k = 0"
    by blast
  moreover from get_block_frame(11) [OF gb] obtain d where
    "trace s1 = trace s @ [Resolve inum fs, BioRead d, Memcpy (512 - r)]" by blast
  ultimately have "trace s' = trace s @ ([Resolve inum fs, BioRead d, Memcpy (512 - r)] @ pre)
      @ [Resolve inum fe, BioRead dbn, Memcpy k] \<and> (numb mod 512 = 0 \<longrightarrow> k = 0)" by simp
  then show ?thesis unfolding sd inum_def [symmetric] by blast
qed

theorem fsRead_block_boundary_witness:
  "fsTell (ex_disk 0) 3 = Inr 0
   \<and> (\<exists>s' n out pre dbn. fsRead (ex_disk 0) 3 512 = Inr (s', n, out)
        \<and> trace s' = trace (ex_disk 0) @ pre @ [Resolve 1 1, BioRead dbn, Memcpy 0])"
proof -
  have h: "fsTell (ex_disk 0) 3 = Inr 0" by code_simp
  have i: "bfsFdToInum (ex_disk 0) 3 = 1" by code_simp
  have "\<not> isl (fsRead (ex_disk 0) 3 512)" by code_simp
  then obtain s' n out where r: "fsRead (ex_disk 0) 3 512 = Inr (s', n, out)"
    by (cases "fsRead (ex_disk 0) 3 512") auto
  from fsRead_block_boundary [OF h _ _ _ _ r] i obtain pre dbn where
    "trace s' = trace (ex_disk 0) @ pre @ [Resolve 1 1, BioRead dbn, Memcpy 0]"
    by (auto simp: sdiv_nonneg)
  with h r show ?thesis by blast
qed

text \<open>
  Claim C9 at a concrete input. With the cursor at 511 a read of 1 byte ends on the
  boundary 512. Its last pass resolves file block 1 and reads physical block 2, as the
  claim says, but it copies 1 byte from that block, not zero: the count of the last pass
  is \<^verbatim>\<open>(cursor + numb) % BYTESPERBLOCK\<close> with the local \<open>cursor\<close> already advanced to
  512.
\<close>

theorem fsRead_boundary_copies_one_byte:
  "fsTell (ex_disk 511) 3 = Inr 511
   \<and> read_trace (ex_disk 511) 3 1 =
       Inr [Resolve 1 0, BioRead 1, Memcpy 1, Resolve 1 1, BioRead 2, Memcpy 1]
   \<and> read_result (ex_disk 511) 3 1 = Inr (2, [0, 0])"
  by code_simp

subsection \<open>What a write stores\<close>

lemma inode_ok_trace [simp]: "inode_ok (s\<lparr>trace := t\<rparr>) inum = inode_ok s inum"
  by (simp add: inode_ok_def)

lemma inode_ok_set_curs [simp]: "inode_ok (set_curs s i c) inum = inode_ok s inum"
  by (simp add: inode_ok_def)

lemma file_byte_set_curs [simp]: "file_byte (set_curs s i c) inum p = file_byte s inum p"
  by (simp add: file_byte_def)

lemma bfsAllocBlock_Inr:
  assumes "bfsAllocBlock s = Inr (s1, d)"
  shows "d < length (freelist s)" "\<not> freelist s ! d" "s1 = s\<lparr>freelist := (freelist s)[d := True]\<rparr>"
proof -
  from assms have f: "find_slot (\<lambda>u. \<not> u) (freelist s) = Some d"
    and s1: "s1 = s\<lparr>freelist := (freelist s)[d := True]\<rparr>"
    by (auto simp: bfsAllocBlock_def split: option.splits)
  from find_slot_Some [OF f] show "d < length (freelist s)" "\<not> freelist s ! d" by simp_all
  from s1 show "s1 = s\<lparr>freelist := (freelist s)[d := True]\<rparr>" .
qed

lemma bfsFbnToDbn_ok:
  assumes ok: "inode_ok s inum" and i: "0 \<le> i" and r: "bfsFbnToDbn s inum i = Inr (s1, d)"
  shows "inode_ok s1 inum"
    and "nat i < length (blocks (inodes s1 inum))"
    and "blocks (inodes s1 inum) ! nat i = d"
    and "disk s1 = disk s"
    and "length (blocks (inodes s inum)) \<le> length (blocks (inodes s1 inum))"
    and "\<forall>j < length (blocks (inodes s1 inum)). j \<noteq> nat i \<longrightarrow>
           j < length (blocks (inodes s inum))
           \<and> blocks (inodes s1 inum) ! j = blocks (inodes s inum) ! j"
proof -
  let ?bl = "blocks (inodes s inum)"
  let ?s0 = "s\<lparr>trace := trace s @ [Resolve inum i]\<rparr>"
  have "inode_ok s1 inum \<and> nat i < length (blocks (inodes s1 inum))
      \<and> blocks (inodes s1 inum) ! nat i = d \<and> disk s1 = disk s
      \<and> length ?bl \<le> length (blocks (inodes s1 inum))
      \<and> (\<forall>j < length (blocks (inodes s1 inum)). j \<noteq> nat i \<longrightarrow>
           j < length ?bl \<and> blocks (inodes s1 inum) ! j = ?bl ! j)"
  proof (cases "nat i < length ?bl")
    case True
    with r i have "s1 = ?s0" "d = ?bl ! nat i"
      by (auto simp: bfsFbnToDbn_def Let_def)
    with ok True show ?thesis by simp
  next
    case False
    with r i have eq: "i = int (length ?bl)"
      by (auto simp: bfsFbnToDbn_def Let_def split: if_splits)
    with r False obtain sa where al: "bfsAllocBlock ?s0 = Inr (sa, d)"
      and s1: "s1 = sa\<lparr>inodes := (inodes sa)(inum := (inodes s inum)\<lparr>blocks := ?bl @ [d]\<rparr>)\<rparr>"
      by (auto simp: bfsFbnToDbn_def Let_def split: sum.splits)
    from bfsAllocBlock_Inr [OF al] have d: "d < length (freelist s)" "\<not> freelist s ! d"
      and sa: "sa = ?s0\<lparr>freelist := (freelist s)[d := True]\<rparr>" by simp_all
    from ok d have dn: "d \<notin> set ?bl" by (auto simp: inode_ok_def)
    from s1 sa have bl1: "blocks (inodes s1 inum) = ?bl @ [d]"
      and fl1: "freelist s1 = (freelist s)[d := True]" and dk: "disk s1 = disk s" by simp_all
    have "inode_ok s1 inum"
      unfolding inode_ok_def bl1 fl1 dk
      using ok dn d by (auto simp: inode_ok_def nth_list_update)
    moreover from eq have "nat i = length ?bl" by simp
    ultimately show ?thesis using bl1 dk by (auto simp: nth_append)
  qed
  then show "inode_ok s1 inum"
    and "nat i < length (blocks (inodes s1 inum))"
    and "blocks (inodes s1 inum) ! nat i = d"
    and "disk s1 = disk s"
    and "length (blocks (inodes s inum)) \<le> length (blocks (inodes s1 inum))"
    and "\<forall>j < length (blocks (inodes s1 inum)). j \<noteq> nat i \<longrightarrow>
           j < length (blocks (inodes s inum))
           \<and> blocks (inodes s1 inum) ! j = blocks (inodes s inum) ! j"
    by blast+
qed

lemma memcpy_Inr:
  assumes "memcpy s dst doff src soff n = Inr (s3, dst')"
  shows "0 \<le> n" "0 \<le> doff" "doff + n \<le> int (length dst)" "0 \<le> soff"
    "soff + n \<le> int (length src)"
    "s3 = s\<lparr>trace := trace s @ [Memcpy n]\<rparr>"
    "dst' = take (nat doff) dst @ take (nat n) (drop (nat soff) src) @ drop (nat (doff + n)) dst"
  using assms by (auto simp: memcpy_def split: if_splits)

lemma memcpy_length:
  assumes "memcpy s dst doff src soff n = Inr (s3, dst')"
  shows "length dst' = length dst"
proof -
  note m = memcpy_Inr [OF assms]
  from m(1-5) have b: "nat doff + nat n \<le> length dst" "nat soff + nat n \<le> length src"
    "nat (doff + n) = nat doff + nat n" by linarith+
  from b have l1: "length (take (nat doff) dst) = nat doff" by simp
  from b(2) have "nat n \<le> length src - nat soff" by linarith
  then have l2: "length (take (nat n) (drop (nat soff) src)) = nat n" by (simp add: min_absorb2)
  from b have l3: "length (drop (nat (doff + n)) dst) = length dst - (nat doff + nat n)" by simp
  show ?thesis unfolding m(7) length_append l1 l2 l3 using b(1) by linarith
qed

lemma memcpy_nth:
  assumes "memcpy s dst doff src soff n = Inr (s3, dst')" "k < nat n"
  shows "dst' ! (nat doff + k) = src ! (nat soff + k)"
proof -
  note m = memcpy_Inr [OF assms(1)]
  from m(1-5) have b: "nat doff \<le> length dst" "nat soff + nat n \<le> length src" by linarith+
  from b(1) have l: "length (take (nat doff) dst) = nat doff" by simp
  from b(2) assms(2) have "k < length (take (nat n) (drop (nat soff) src))" by simp
  then have "dst' ! (nat doff + k) = take (nat n) (drop (nat soff) src) ! k"
    unfolding m(7) using l by (simp add: nth_append)
  also from assms(2) b(2) have "\<dots> = src ! (nat soff + k)" by simp
  finally show ?thesis .
qed

lemma put_block_ok:
  assumes ok: "inode_ok s inum" and i: "0 \<le> i" and pb: "put_block s inum i off buf bo w = Inr s'"
  shows "inode_ok s' inum"
    and "nat i < length (blocks (inodes s' inum))"
    and "length (blocks (inodes s inum)) \<le> length (blocks (inodes s' inum))"
    and "\<forall>j < length (blocks (inodes s' inum)). j \<noteq> nat i \<longrightarrow>
           j < length (blocks (inodes s inum))
           \<and> disk s' (blocks (inodes s' inum) ! j) = disk s (blocks (inodes s inum) ! j)"
    and "0 \<le> w \<and> 0 \<le> off \<and> off + w \<le> 512 \<and> 0 \<le> bo \<and> bo + w \<le> int (length buf)"
    and "\<forall>k < nat w. disk s' (blocks (inodes s' inum) ! nat i) ! (nat off + k) = buf ! (nat bo + k)"
proof -
  from pb obtain s1 d where r: "bfsFbnToDbn s inum i = Inr (s1, d)"
    by (cases "bfsFbnToDbn s inum i") (auto simp: put_block_def)
  note f = bfsFbnToDbn_ok [OF ok i r]
  let ?s2 = "s1\<lparr>trace := trace s1 @ [BioRead d]\<rparr>"
  from pb r obtain s3 bio' where m: "memcpy ?s2 (disk s1 d) off buf bo w = Inr (s3, bio')"
    and s': "s' = bioWrite s3 d bio'"
    by (auto simp: put_block_def bioRead_def split: sum.splits)
  note mi = memcpy_Inr [OF m]
  from f(1,2,3) have dl: "d < length (freelist s1)" "length (disk s1 d) = 512"
    by (auto simp: inode_ok_def dest: nth_mem)
  from s' mi(6) have bl: "blocks (inodes s' inum) = blocks (inodes s1 inum)"
    and fl: "freelist s' = freelist s1" and dk: "disk s' = (disk s1)(d := bio')"
    by (simp_all add: bioWrite_def)
  from memcpy_length [OF m] dl have len: "length bio' = 512" by simp
  show "inode_ok s' inum"
    using f(1) len unfolding inode_ok_def bl fl dk by auto
  show "nat i < length (blocks (inodes s' inum))" using f(2) bl by simp
  show "length (blocks (inodes s inum)) \<le> length (blocks (inodes s' inum))" using f(5) bl by simp
  show "\<forall>j < length (blocks (inodes s' inum)). j \<noteq> nat i \<longrightarrow>
           j < length (blocks (inodes s inum))
           \<and> disk s' (blocks (inodes s' inum) ! j) = disk s (blocks (inodes s inum) ! j)"
  proof (intro allI impI)
    fix j assume j: "j < length (blocks (inodes s' inum))" "j \<noteq> nat i"
    with f(6) bl have a: "j < length (blocks (inodes s inum))"
      "blocks (inodes s1 inum) ! j = blocks (inodes s inum) ! j" by simp_all
    from f(1) have "distinct (blocks (inodes s1 inum))" by (simp add: inode_ok_def)
    with j f(2,3) bl have "blocks (inodes s1 inum) ! j \<noteq> d"
      by (auto simp: nth_eq_iff_index_eq)
    with a bl dk f(4) show "j < length (blocks (inodes s inum))
           \<and> disk s' (blocks (inodes s' inum) ! j) = disk s (blocks (inodes s inum) ! j)"
      by simp
  qed
  show "0 \<le> w \<and> 0 \<le> off \<and> off + w \<le> 512 \<and> 0 \<le> bo \<and> bo + w \<le> int (length buf)"
    using mi(1-5) dl by simp
  show "\<forall>k < nat w. disk s' (blocks (inodes s' inum) ! nat i) ! (nat off + k) = buf ! (nat bo + k)"
    using memcpy_nth [OF m] f(3) bl dk by simp
qed

lemma block_pos:
  fixes a k :: nat
  assumes "k < 512"
  shows "(a * 512 + k) div 512 = a" "(a * 512 + k) mod 512 = k"
  using assms by simp_all

lemma write_loop_aligned:
  assumes "inode_ok s inum" "0 \<le> i" "0 \<le> btw" "boff \<le> 0" "0 \<le> bo"
    and "btw \<le> (fbnEnd + 1 - i) * 512"
    and "write_loop inum buf fbnEnd i btw boff bo s = Inr s'"
    and "bo + btw \<le> INT32_MAX"
  shows "inode_ok s' inum
     \<and> length (blocks (inodes s inum)) \<le> length (blocks (inodes s' inum))
     \<and> (\<forall>k < nat btw. (nat i * 512 + k) div 512 < length (blocks (inodes s' inum))
            \<and> file_byte s' inum (nat i * 512 + k) = buf ! (nat bo + k))
     \<and> (\<forall>j < nat i. j < length (blocks (inodes s' inum)) \<longrightarrow>
            j < length (blocks (inodes s inum))
            \<and> disk s' (blocks (inodes s' inum) ! j) = disk s (blocks (inodes s inum) ! j))"
  using assms
proof (induction "nat (fbnEnd + 1 - i)" arbitrary: i btw bo s)
  case 0
  then have "fbnEnd + 1 - i \<le> 0" by simp
  then have "(fbnEnd + 1 - i) * 512 \<le> 0" by simp
  with "0.prems"(3,6) have z: "btw = 0" by linarith
  with "0.prems"(7) have "s' = s" by (subst (asm) write_loop_unfold) simp
  with "0.prems"(1) z show ?case by simp
next
  case (Suc n)
  show ?case
  proof (cases "btw = 0")
    case True
    with Suc.prems(7) have "s' = s" by (subst (asm) write_loop_unfold) simp
    with Suc.prems(1) True show ?thesis by simp
  next
    case False
    from Suc.hyps(2) have le: "i \<le> fbnEnd" and n: "n = nat (fbnEnd + 1 - (i + 1))" by linarith+
    define w where "w = min 512 btw"
    from False Suc.prems(3) have w: "0 < w" "w \<le> 512" "w \<le> btw" by (simp_all add: w_def)
    from Suc.prems(4) have nb: "\<not> 0 < boff" by simp
    from Suc.prems(7) le False nb have
      "(case put_block s inum i 0 buf bo (min 512 btw) of
          Inl e \<Rightarrow> Inl e
        | Inr s1 \<Rightarrow>
            write_loop inum buf fbnEnd (i + 1) (i32 (btw - min 512 btw)) boff
              (i32 (bo + min 512 btw)) s1)
       = Inr s'"
      by (subst (asm) write_loop_unfold) simp
    then obtain s1 where pb: "put_block s inum i 0 buf bo w = Inr s1"
      and wl0: "write_loop inum buf fbnEnd (i + 1) (i32 (btw - w)) boff (i32 (bo + w)) s1 = Inr s'"
      unfolding w_def by (cases "put_block s inum i 0 buf bo (min 512 btw)") auto
    from w Suc.prems(3,5,8) have "i32 (btw - w) = btw - w" "i32 (bo + w) = bo + w"
      by (simp_all add: i32_id)
    with wl0 have wl: "write_loop inum buf fbnEnd (i + 1) (btw - w) boff (bo + w) s1 = Inr s'"
      by simp
    from Suc.prems(8) have rng: "bo + w + (btw - w) \<le> 2147483647" by simp
    note p = put_block_ok [OF Suc.prems(1,2) pb]
    have bnd: "btw - w \<le> (fbnEnd + 1 - (i + 1)) * 512"
    proof (cases "w = btw")
      case True
      with le show ?thesis by simp
    next
      case False
      with w have "w = 512" by (simp add: w_def min_def split: if_splits)
      with Suc.prems(6) show ?thesis by (simp add: algebra_simps)
    qed
    from Suc.prems(2,5) w have nn: "0 \<le> i + 1" "0 \<le> btw - w" "0 \<le> bo + w" by simp_all
    note ih = Suc.hyps(1) [OF n p(1) nn(1,2) Suc.prems(4) nn(3) bnd wl rng]
    from ih have ok': "inode_ok s' inum"
      and len': "length (blocks (inodes s1 inum)) \<le> length (blocks (inodes s' inum))"
      and wr': "\<And>k. k < nat (btw - w) \<Longrightarrow>
            (nat (i + 1) * 512 + k) div 512 < length (blocks (inodes s' inum))
            \<and> file_byte s' inum (nat (i + 1) * 512 + k) = buf ! (nat (bo + w) + k)"
      and fr': "\<And>j. j < nat (i + 1) \<Longrightarrow> j < length (blocks (inodes s' inum)) \<Longrightarrow>
            j < length (blocks (inodes s1 inum))
            \<and> disk s' (blocks (inodes s' inum) ! j) = disk s1 (blocks (inodes s1 inum) ! j)"
      by blast+
    from Suc.prems(2) have i1: "nat (i + 1) = nat i + 1" by simp
    have cur: "nat i < length (blocks (inodes s' inum))"
      "disk s' (blocks (inodes s' inum) ! nat i) = disk s1 (blocks (inodes s1 inum) ! nat i)"
      using fr' [of "nat i"] p(2) len' i1 by simp_all
    have wr: "(nat i * 512 + k) div 512 < length (blocks (inodes s' inum))
            \<and> file_byte s' inum (nat i * 512 + k) = buf ! (nat bo + k)" if k: "k < nat btw" for k
    proof (cases "k < nat w")
      case True
      with w have k5: "k < 512" by linarith
      from p(6) True have "disk s1 (blocks (inodes s1 inum) ! nat i) ! k = buf ! (nat bo + k)"
        by simp
      with cur k5 show ?thesis by (simp add: file_byte_def)
    next
      case False
      with k w have w5: "w = 512" by (simp add: w_def min_def split: if_splits)
      with False have k5: "512 \<le> k" by simp
      from k w5 k5 Suc.prems(3) have "k - 512 < nat (btw - w)" by linarith
      from wr' [OF this] have "(nat (i + 1) * 512 + (k - 512)) div 512 < length (blocks (inodes s' inum))
            \<and> file_byte s' inum (nat (i + 1) * 512 + (k - 512)) = buf ! (nat (bo + w) + (k - 512))" .
      moreover from k5 i1 have "nat (i + 1) * 512 + (k - 512) = nat i * 512 + k" by simp
      moreover from k5 w5 Suc.prems(5) have "nat (bo + w) + (k - 512) = nat bo + k" by simp
      ultimately show ?thesis by simp
    qed
    have fr: "j < length (blocks (inodes s inum))
            \<and> disk s' (blocks (inodes s' inum) ! j) = disk s (blocks (inodes s inum) ! j)"
      if j: "j < nat i" "j < length (blocks (inodes s' inum))" for j
    proof -
      from j i1 have "j < nat (i + 1)" by simp
      from fr' [OF this j(2)] have a: "j < length (blocks (inodes s1 inum))"
        "disk s' (blocks (inodes s' inum) ! j) = disk s1 (blocks (inodes s1 inum) ! j)" by simp_all
      from j(1) have "j \<noteq> nat i" by simp
      with p(4) a(1) have "j < length (blocks (inodes s inum))
        \<and> disk s1 (blocks (inodes s1 inum) ! j) = disk s (blocks (inodes s inum) ! j)" by blast
      with a(2) show ?thesis by simp
    qed
    from ok' p(3) len' wr fr show ?thesis by auto
  qed
qed

text \<open>
  What \<^verbatim>\<open>fsWrite\<close> does store. Let the blocks of the inode of an open descriptor be
  distinct and marked used, and the blocks of the image be of \<^verbatim>\<open>BYTESPERBLOCK\<close> bytes.
  If \<^verbatim>\<open>fsWrite\<close> of \<open>numb \<ge> 0\<close> bytes from cursor \<open>c \<ge> 0\<close>, with \<open>c + numb\<close> within
  \<^verbatim>\<open>i32\<close>, returns, it returns 0; every position \<open>c + k\<close> with \<open>k < numb\<close> then lies in
  a block the inode owns (blocks are allocated as the range needs them) and holds the byte
  \<open>buf[k]\<close>; the cursor is \<open>c + numb\<close>; and the size \<^verbatim>\<open>fsSize\<close> returns is what it was
  before the call.
\<close>

theorem fsWrite_stores_bytes:
  assumes ok: "inode_ok s (bfsFdToInum s fd)" and t: "fsTell s fd = Inr c"
    and c: "0 \<le> c" and n: "0 \<le> numb" and rng: "c + numb \<le> INT32_MAX"
    and wr: "fsWrite s fd numb buf = Inr (s', r)"
  shows "r = 0 \<and> fsTell s' fd = Inr (c + numb)
     \<and> (\<forall>k < nat numb.
            (nat c + k) div 512 < length (blocks (inodes s' (bfsFdToInum s fd)))
            \<and> file_byte s' (bfsFdToInum s fd) (nat c + k) = buf ! k)
     \<and> inode_ok s' (bfsFdToInum s fd)
     \<and> fsSize s' fd = fsSize s fd"
proof -
  define inum where "inum = bfsFdToInum s fd"
  define fs where "fs = c div 512"
  define fe where "fe = (c + numb) div 512"
  define r0 where "r0 = c mod 512"
  from t have bt: "bfsTell s fd = Inr c" by (simp add: fsTell_def)
  from c n rng have icn: "i32 (c + numb) = c + numb" by (simp add: i32_id)
  from c n have sd: "c sdiv 512 = fs" "(c + numb) sdiv 512 = fe"
    by (simp_all add: sdiv_nonneg fs_def fe_def)
  have cdec: "c = 512 * fs + r0" and r0: "0 \<le> r0" "r0 < 512"
    by (simp_all add: fs_def r0_def)
  from c have fs0: "0 \<le> fs" by (simp add: fs_def pos_imp_zdiv_nonneg_iff)
  from cdec have "(fs + 1) * 512 - c = 512 - r0" by (simp add: algebra_simps)
  with r0 have boff: "i32 (i32 ((fs + 1) * 512) - c) = 512 - r0" by (simp add: i32_id)
  from r0 have ir: "i32 (512 - (512 - r0)) = r0" by (simp add: i32_id)
  from fsWrite_Inr [OF wr] obtain c' ofte s1 where bt': "bfsTell s fd = Inr c'"
    and wl0: "write_loop (bfsFdToInum s fd) buf (i32 (c' + numb) sdiv 512) (c' sdiv 512) numb
                (i32 (i32 ((c' sdiv 512 + 1) * 512) - c')) 0 s = Inr s1"
    and s0: "s' = set_curs s1 ofte (i32 (c' + numb))" and r: "r = 0"
    by blast
  from bt bt' have cc: "c' = c" by simp
  from wl0 have wl: "write_loop inum buf fe fs numb (512 - r0) 0 s = Inr s1"
    unfolding cc icn sd boff inum_def [symmetric] .
  from s0 have s': "s' = set_curs s1 ofte (c + numb)" unfolding cc icn .
  from fsWrite_tell [OF wr bt refl] icn have tell: "fsTell s' fd = Inr (c + numb)"
    by (simp add: fsTell_def)
  have main: "inode_ok s1 inum \<and> (\<forall>k < nat numb.
            (nat c + k) div 512 < length (blocks (inodes s1 inum))
            \<and> file_byte s1 inum (nat c + k) = buf ! k)"
  proof (cases "numb = 0")
    case True
    with wl have "s1 = s" by (subst (asm) write_loop_unfold) simp
    with ok True show ?thesis by (simp add: inum_def)
  next
    case False
    with n have pos: "0 < numb" by simp
    from n have fle: "fs \<le> fe" unfolding fs_def fe_def by (intro zdiv_mono1) simp_all
    define w where "w = min (512 - r0) numb"
    from pos r0 have w: "0 < w" "w \<le> 512 - r0" "w \<le> numb" by (simp_all add: w_def)
    from r0 have bp: "0 < 512 - r0" by simp
    from wl fle False bp have
      "(case put_block s inum fs (i32 (512 - (512 - r0))) buf 0 (min (512 - r0) numb) of
          Inl e \<Rightarrow> Inl e
        | Inr sa \<Rightarrow>
            write_loop inum buf fe (fs + 1) (i32 (numb - min (512 - r0) numb)) 0
              (i32 (0 + min (512 - r0) numb)) sa) = Inr s1"
      by (subst (asm) write_loop_unfold) simp
    then obtain sa where pb: "put_block s inum fs r0 buf 0 w = Inr sa"
      and wl1: "write_loop inum buf fe (fs + 1) (i32 (numb - w)) 0 (i32 (0 + w)) sa = Inr s1"
      unfolding w_def ir
      by (cases "put_block s inum fs r0 buf 0 (min (512 - r0) numb)") auto
    from w c n rng have "i32 (numb - w) = numb - w" "i32 (0 + w) = w" by (simp_all add: i32_id)
    with wl1 have wl': "write_loop inum buf fe (fs + 1) (numb - w) 0 w sa = Inr s1" by simp
    from ok have ok0: "inode_ok s inum" by (simp add: inum_def)
    note p = put_block_ok [OF ok0 fs0 pb]
    have cnd: "c + numb < 512 * fe + 512"
      using pos_mod_bound [of 512 "c + numb"] mult_div_mod_eq [of 512 "c + numb"]
      unfolding fe_def by linarith
    have bnd: "numb - w \<le> (fe + 1 - (fs + 1)) * 512"
    proof (cases "w = numb")
      case True
      with fle show ?thesis by simp
    next
      case False
      with w have "w = 512 - r0" by (simp add: w_def min_def split: if_splits)
      with cnd cdec show ?thesis by (simp add: algebra_simps)
    qed
    from fs0 w have nn: "0 \<le> fs + 1" "0 \<le> numb - w" "(0::int) \<le> 0" "0 \<le> w" by simp_all
    from c rng have rg: "w + (numb - w) \<le> 2147483647" by simp
    note l = write_loop_aligned [OF p(1) nn bnd wl' rg]
    from l have ok1: "inode_ok s1 inum"
      and len1: "length (blocks (inodes sa inum)) \<le> length (blocks (inodes s1 inum))"
      and wr1: "\<And>k. k < nat (numb - w) \<Longrightarrow>
            (nat (fs + 1) * 512 + k) div 512 < length (blocks (inodes s1 inum))
            \<and> file_byte s1 inum (nat (fs + 1) * 512 + k) = buf ! (nat w + k)"
      and fr1: "\<And>j. j < nat (fs + 1) \<Longrightarrow> j < length (blocks (inodes s1 inum)) \<Longrightarrow>
            j < length (blocks (inodes sa inum))
            \<and> disk s1 (blocks (inodes s1 inum) ! j) = disk sa (blocks (inodes sa inum) ! j)"
      by blast+
    from fs0 have f1: "nat (fs + 1) = nat fs + 1" by simp
    from cdec fs0 r0 have nc: "nat c = nat fs * 512 + nat r0"
      by (simp add: nat_add_distrib nat_mult_distrib)
    have cur: "nat fs < length (blocks (inodes s1 inum))"
      "disk s1 (blocks (inodes s1 inum) ! nat fs) = disk sa (blocks (inodes sa inum) ! nat fs)"
      using fr1 [of "nat fs"] p(2) len1 f1 by simp_all
    have "(nat c + k) div 512 < length (blocks (inodes s1 inum))
            \<and> file_byte s1 inum (nat c + k) = buf ! k" if k: "k < nat numb" for k
    proof (cases "k < nat w")
      case True
      with w r0 have k5: "nat r0 + k < 512" by linarith
      from p(6) True have "disk sa (blocks (inodes sa inum) ! nat fs) ! (nat r0 + k) = buf ! k"
        by simp
      moreover have e: "nat c + k = nat fs * 512 + (nat r0 + k)" using nc by simp
      have "(nat c + k) div 512 = nat fs" unfolding e by (rule block_pos(1) [OF k5])
      moreover have "(nat c + k) mod 512 = nat r0 + k" unfolding e by (rule block_pos(2) [OF k5])
      ultimately show ?thesis using cur unfolding file_byte_def by simp
    next
      case False
      with k w have wv: "w = 512 - r0" by (simp add: w_def min_def split: if_splits)
      with False r0 have kw: "nat w \<le> k" "nat w = 512 - nat r0" by linarith+
      from k kw w have "k - nat w < nat (numb - w)" by linarith
      from wr1 [OF this] have
        "(nat (fs + 1) * 512 + (k - nat w)) div 512 < length (blocks (inodes s1 inum))
         \<and> file_byte s1 inum (nat (fs + 1) * 512 + (k - nat w)) = buf ! (nat w + (k - nat w))" .
      moreover from r0 have "nat r0 < 512" by simp
      with kw nc f1 have "nat (fs + 1) * 512 + (k - nat w) = nat c + k" by linarith
      moreover from kw have "nat w + (k - nat w) = k" by simp
      ultimately show ?thesis by simp
    qed
    with ok1 show ?thesis by blast
  qed
  with s' r tell fsWrite_size [OF wr] show ?thesis by (simp add: inum_def)
qed

theorem fsWrite_stores_bytes_witness:
  "inode_ok (ex_disk 511) (bfsFdToInum (ex_disk 511) 3) \<and> fsTell (ex_disk 511) 3 = Inr 511
   \<and> (\<exists>s' r. fsWrite (ex_disk 511) 3 3 [1, 2, 3] = Inr (s', r) \<and> r = 0
          \<and> fsTell s' 3 = Inr 514
          \<and> file_byte s' 1 511 = 1 \<and> file_byte s' 1 512 = 2 \<and> file_byte s' 1 513 = 3)"
proof -
  have i: "bfsFdToInum (ex_disk 511) 3 = 1" by code_simp
  have h1: "inode_ok (ex_disk 511) (bfsFdToInum (ex_disk 511) 3)" by code_simp
  have h2: "fsTell (ex_disk 511) 3 = Inr 511" by code_simp
  have "\<not> isl (fsWrite (ex_disk 511) 3 3 [1, 2, 3])" by code_simp
  then obtain s' r where h3: "fsWrite (ex_disk 511) 3 3 [1, 2, 3] = Inr (s', r)"
    by (cases "fsWrite (ex_disk 511) 3 3 [1, 2, 3]") auto
  from fsWrite_stores_bytes [OF h1 h2 _ _ _ h3] i
  have a: "r = 0" "fsTell s' 3 = Inr 514"
    and b: "\<And>k. k < 3 \<Longrightarrow> file_byte s' 1 (511 + k) = [1, 2, 3] ! k"
    by simp_all
  from b [of 0] b [of 1] b [of 2] have "file_byte s' 1 511 = 1" "file_byte s' 1 512 = 2"
    "file_byte s' 1 513 = 3" by simp_all
  with h1 h2 h3 a show ?thesis by blast
qed

text \<open>
  Claim C3 at a concrete input. The file is new: size 0, no block, cursor 0. \<^verbatim>\<open>fsWrite\<close>
  of the two bytes 8, 9 returns 0, allocates one block for the inode, stores the two bytes
  at positions 0 and 1 and leaves the cursor at 2; but the size \<^verbatim>\<open>fsSize\<close> returns is
  still 0: the file has not been extended.
\<close>

theorem fsWrite_does_not_extend:
  "fsSize ex_new 3 = 0 \<and> write_report ex_new 3 2 [8, 9] = Inr (0, Inr 2, 0, 1, [8, 9])"
  by code_simp

subsection \<open>At the end of the range of i32\<close>

text \<open>
  With the cursor at \<open>2^31 - 1\<close>, \<open>cursor + numb\<close> wraps to a negative number, \<open>fbnEnd\<close> is
  below \<open>fbnStart\<close> and neither loop runs: a write of one byte returns 0 with no call
  into the block layer, a read of one byte returns 0 with no call into the block layer,
  and a relative seek by 1 leaves the cursor at \<open>-2^31\<close>.
\<close>

lemma at_int32_max:
  "write_trace (ex_disk 2147483647) 3 1 [5] = Inr (0, [], Inr (- 2147483648))"
  "read_result (ex_disk 2147483647) 3 1 = Inr (0, [])"
  "read_trace (ex_disk 2147483647) 3 1 = Inr []"
  "tell_after_seek (ex_disk 2147483647) 3 1 SEEK_CUR = Inr (- 2147483648)"
  by code_simp+

end
